theory Spec2Isabelle
  imports Complex_Main "HOL-Library.AList" "HOL-Library.Char_ord" "HOL-Library.List_Lexorder"
    "HOL-Library.Log_Nat" "HOL-Library.Multiset"
begin

section \<open>The log directory\<close>

text \<open>
  The exceptions of \<^verbatim>\<open>main.py\<close> that the model keeps apart. None of them is caught anywhere
  in the source, so each one ends the call that raises it.
\<close>

datatype error =
    ValueError
  | IndexError
  | OverflowError
  | FileNotFoundError
  | IsADirectoryError
  | OSError

text \<open>
  \<^verbatim>\<open>/var/log/user_cpu_usage\<close> is a list of named entries in the order \<^verbatim>\<open>os.listdir\<close> returns
  them (an order the operating system chooses). An entry is a regular file with its text or
  a subdirectory.
\<close>

datatype entry = File string | Dir

type_synonym directory = "(string \<times> entry) list"

definition listdir :: "directory \<Rightarrow> string list" where
  "listdir d = map fst d"

text \<open>\<^verbatim>\<open>os.remove(path)\<close>: the entry must exist and must not be a directory.\<close>

definition remove :: "string \<Rightarrow> directory \<Rightarrow> error + directory" where
  "remove name d =
     (case map_of d name of
        None \<Rightarrow> Inl FileNotFoundError
      | Some Dir \<Rightarrow> Inl IsADirectoryError
      | Some (File _) \<Rightarrow> Inr (AList.delete name d))"

text \<open>The loop \<^verbatim>\<open>for file in files[:-7]: os.remove(...)\<close>; it stops at the first exception.\<close>

fun remove_each :: "string list \<Rightarrow> directory \<Rightarrow> error + directory" where
  "remove_each [] d = Inr d"
| "remove_each (name # names) d =
     (case remove name d of Inl e \<Rightarrow> Inl e | Inr d' \<Rightarrow> remove_each names d')"

text \<open>
  \<^verbatim>\<open>
  files = os.listdir(log_dir)
  if len(files) > 7:
      files.sort()
      for file in files[:-7]: os.remove(os.path.join(log_dir, file))
  \<close>
  Python compares strings by code point, shorter prefix first: the order of
  \<^typ>\<open>string\<close> here.
\<close>

definition clear_previous_logs :: "directory \<Rightarrow> error + directory" where
  "clear_previous_logs d =
     (let files = listdir d in
      if length files > 7
      then remove_each (take (length files - 7) (sort files)) d
      else Inr d)"

text \<open>Every entry of the directory is a regular file.\<close>

definition only_files :: "directory \<Rightarrow> bool" where
  "only_files d = list_all (\<lambda>(name, e). e \<noteq> Dir) d"

section \<open>Strings\<close>

text \<open>
  A Python \<^verbatim>\<open>str\<close> is a \<^typ>\<open>string\<close>, one \<^typ>\<open>char\<close> for each character: the model is of
  ASCII text. \<open>isspace\<close> is \<^verbatim>\<open>str.isspace\<close> there: tab, line feed, vertical tab, form feed,
  carriage return, the four separators \<^verbatim>\<open>0x1c\<close> to \<^verbatim>\<open>0x1f\<close> and the blank.
\<close>

abbreviation newline :: char where
  "newline \<equiv> CHR 0x0A"

abbreviation carriage_return :: char where
  "carriage_return \<equiv> CHR 0x0D"

definition isspace :: "char \<Rightarrow> bool" where
  "isspace c = (c \<in> set [CHR 0x09, CHR 0x0A, CHR 0x0B, CHR 0x0C, CHR 0x0D,
                          CHR 0x1C, CHR 0x1D, CHR 0x1E, CHR 0x1F, CHR 0x20])"

definition strip :: "string \<Rightarrow> string" where
  "strip s = rev (dropWhile isspace (rev (dropWhile isspace s)))"

definition startswith :: "string \<Rightarrow> string \<Rightarrow> bool" where
  "startswith s p = (take (length p) s = p)"

text \<open>\<^verbatim>\<open>s.split()\<close>: the maximal runs of characters that are not whitespace, \<open>w\<close> the run
  being read.\<close>

fun split_from :: "string \<Rightarrow> string \<Rightarrow> string list" where
  "split_from w [] = (if w = [] then [] else [w])"
| "split_from w (c # cs) =
     (if isspace c then (if w = [] then split_from [] cs else w # split_from [] cs)
      else split_from (w @ [c]) cs)"

definition split :: "string \<Rightarrow> string list" where
  "split s = split_from [] s"

text \<open>\<^verbatim>\<open>s.split(sep)\<close> for a separator of one character: empty fields are kept.\<close>

fun split_sep_from :: "char \<Rightarrow> string \<Rightarrow> string \<Rightarrow> string list" where
  "split_sep_from sep w [] = [w]"
| "split_sep_from sep w (c # cs) =
     (if c = sep then w # split_sep_from sep [] cs else split_sep_from sep (w @ [c]) cs)"

definition split_sep :: "char \<Rightarrow> string \<Rightarrow> string list" where
  "split_sep sep s = split_sep_from sep [] s"

text \<open>\<^verbatim>\<open>p in s\<close> for strings.\<close>

fun contains :: "string \<Rightarrow> string \<Rightarrow> bool" where
  "contains [] p = (p = [])"
| "contains (c # cs) p = (startswith (c # cs) p \<or> contains cs p)"

text \<open>
  A file opened in text mode is read with universal newlines: \<^verbatim>\<open>\r\n\<close> and a lone \<^verbatim>\<open>\r\<close>
  arrive as \<^verbatim>\<open>\n\<close>. \<^verbatim>\<open>readlines()\<close> then cuts after every \<^verbatim>\<open>\n\<close> and keeps it in the line.
\<close>

fun universal_newlines :: "string \<Rightarrow> string" where
  "universal_newlines [] = []"
| "universal_newlines [c] = [if c = carriage_return then newline else c]"
| "universal_newlines (c # d # cs) =
     (if c = carriage_return \<and> d = newline then newline # universal_newlines cs
      else if c = carriage_return then newline # universal_newlines (d # cs)
      else c # universal_newlines (d # cs))"

fun lines_from :: "string \<Rightarrow> string \<Rightarrow> string list" where
  "lines_from w [] = (if w = [] then [] else [w])"
| "lines_from w (c # cs) =
     (if c = newline then (w @ [c]) # lines_from [] cs else lines_from (w @ [c]) cs)"

definition readlines :: "string \<Rightarrow> string list" where
  "readlines text = lines_from [] (universal_newlines text)"

text \<open>\<^verbatim>\<open>str(n)\<close> for an integer, and \<^verbatim>\<open>%0wd\<close> for a natural number.\<close>

definition digit_char :: "nat \<Rightarrow> char" where
  "digit_char n = ''0123456789'' ! n"

fun str_nat :: "nat \<Rightarrow> string" where
  "str_nat n = (if n < 10 then [digit_char n] else str_nat (n div 10) @ [digit_char (n mod 10)])"

declare str_nat.simps [simp del]

definition str_int :: "int \<Rightarrow> string" where
  "str_int i = (if i < 0 then CHR ''-'' # str_nat (nat (- i)) else str_nat (nat i))"

definition zero_pad :: "nat \<Rightarrow> string \<Rightarrow> string" where
  "zero_pad w s = replicate (w - length s) CHR ''0'' @ s"

section \<open>Floats\<close>

text \<open>
  A Python \<^verbatim>\<open>float\<close> is an IEEE 754 binary64 value: a finite number \<open>m * 2 ^ e\<close> with
  \<open>\<bar>m\<bar> < 2 ^ 53\<close> and \<open>- 1074 \<le> e \<le> 971\<close>, an infinity or a NaN. The finite ones are
  kept as the real numbers they denote (so \<^verbatim>\<open>-0.0\<close> is \<^verbatim>\<open>0.0\<close>); every operation rounds
  its exact result to the nearest such number, ties to the even \<open>m\<close>.
\<close>

datatype pyfloat = Finite real | PosInf | NegInf | NaN

definition round_half_even :: "real \<Rightarrow> int" where
  "round_half_even x =
     (let f = \<lfloor>x\<rfloor>; d = x - of_int f in
      if d < 1 / 2 then f
      else if 1 / 2 < d then f + 1
      else if even f then f else f + 1)"

text \<open>For \<open>0 < x\<close>, the \<open>k\<close> with \<open>2 ^ k \<le> x < 2 ^ (k + 1)\<close>.\<close>

definition ilog2 :: "real \<Rightarrow> int" where
  "ilog2 x = (if 1 \<le> x then bitlen \<lfloor>x\<rfloor> - 1 else - bitlen (\<lceil>1 / x\<rceil> - 1))"

text \<open>The exponent \<open>e\<close> of the binary64 numbers next to \<open>x\<close>: they are the multiples of \<open>2 ^ e\<close>.\<close>

definition exponent_of :: "real \<Rightarrow> int" where
  "exponent_of x = max (ilog2 \<bar>x\<bar> - 52) (- 1074)"

definition round_double :: "real \<Rightarrow> pyfloat" where
  "round_double x =
     (if x = 0 then Finite 0
      else
        let e = exponent_of x;
            r = of_int (round_half_even (x / 2 powi e)) * 2 powi e
        in if 2 powi 1024 \<le> \<bar>r\<bar> then (if 0 < x then PosInf else NegInf) else Finite r)"

text \<open>\<^verbatim>\<open>a + b\<close>, \<^verbatim>\<open>a - b\<close> and \<^verbatim>\<open>a / b\<close> (for \<open>b\<close> finite and not zero).\<close>

fun fadd :: "pyfloat \<Rightarrow> pyfloat \<Rightarrow> pyfloat" where
  "fadd (Finite a) (Finite b) = round_double (a + b)"
| "fadd NaN _ = NaN"
| "fadd _ NaN = NaN"
| "fadd PosInf NegInf = NaN"
| "fadd NegInf PosInf = NaN"
| "fadd PosInf _ = PosInf"
| "fadd _ PosInf = PosInf"
| "fadd NegInf _ = NegInf"
| "fadd _ NegInf = NegInf"

text \<open>\<^verbatim>\<open>v >= 0\<close> on floats: false for a NaN.\<close>

fun nonneg :: "pyfloat \<Rightarrow> bool" where
  "nonneg (Finite a) = (0 \<le> a)"
| "nonneg PosInf = True"
| "nonneg NegInf = False"
| "nonneg NaN = False"

subsection \<open>\<^verbatim>\<open>float(s)\<close>\<close>

text \<open>
  The strings \<^verbatim>\<open>float\<close> accepts, after stripping whitespace (Python's grammar):
  \<^verbatim>\<open>
  floatvalue  ::= [sign] (floatnumber | "inf" | "infinity" | "nan")     case ignored
  floatnumber ::= number [("e" | "E") [sign] digitpart]
  number      ::= [digitpart] "." digitpart | digitpart ["."]
  digitpart   ::= digit (["_"] digit)*
  \<close>
  Anything else raises \<^verbatim>\<open>ValueError\<close>. The decimal number is rounded to the nearest float.
\<close>

definition isdigit :: "char \<Rightarrow> bool" where
  "isdigit c = (CHR ''0'' \<le> c \<and> c \<le> CHR ''9'')"

definition lower :: "char \<Rightarrow> char" where
  "lower c = (if CHR ''A'' \<le> c \<and> c \<le> CHR ''Z'' then char_of (of_char c + (32 :: nat)) else c)"

text \<open>The digits of a \<^verbatim>\<open>digitpart\<close>, its underscores dropped.\<close>

fun digitpart :: "string \<Rightarrow> string option" where
  "digitpart [] = None"
| "digitpart [c] = (if isdigit c then Some [c] else None)"
| "digitpart (c # d # cs) =
     (if \<not> isdigit c then None
      else if d = CHR ''_'' then map_option (Cons c) (digitpart cs)
      else map_option (Cons c) (digitpart (d # cs)))"

definition decimal :: "string \<Rightarrow> int" where
  "decimal ds = foldl (\<lambda>a c. 10 * a + (of_char c - 48)) 0 ds"

text \<open>A \<^verbatim>\<open>number\<close> as \<open>(n, k)\<close>: it denotes \<open>n / 10 ^ k\<close>.\<close>

definition number :: "string \<Rightarrow> (int \<times> nat) option" where
  "number s =
     (let ip = takeWhile (\<lambda>c. c \<noteq> CHR ''.'') s;
          rest = dropWhile (\<lambda>c. c \<noteq> CHR ''.'') s
      in if rest = [] then map_option (\<lambda>ds. (decimal ds, 0)) (digitpart ip)
         else
           let fp = tl rest in
           if ip = [] then map_option (\<lambda>fs. (decimal fs, length fs)) (digitpart fp)
           else
             (case digitpart ip of
                None \<Rightarrow> None
              | Some ds \<Rightarrow>
                  if fp = [] then Some (decimal ds, 0)
                  else map_option (\<lambda>fs. (decimal (ds @ fs), length fs)) (digitpart fp)))"

definition exponent :: "string \<Rightarrow> int option" where
  "exponent s =
     (case s of
        [] \<Rightarrow> None
      | c # cs \<Rightarrow>
          if c = CHR ''-'' then map_option (\<lambda>ds. - decimal ds) (digitpart cs)
          else if c = CHR ''+'' then map_option decimal (digitpart cs)
          else map_option decimal (digitpart s))"

definition floatnumber :: "string \<Rightarrow> real option" where
  "floatnumber s =
     (let is_e = (\<lambda>c. c = CHR ''e'' \<or> c = CHR ''E'');
          mant = takeWhile (\<lambda>c. \<not> is_e c) s;
          rest = dropWhile (\<lambda>c. \<not> is_e c) s
      in case number mant of
           None \<Rightarrow> None
         | Some (n, k) \<Rightarrow>
             if rest = [] then Some (of_int n * 10 powi (- int k))
             else map_option (\<lambda>x. of_int n * 10 powi (x - int k)) (exponent (tl rest)))"

definition py_float :: "string \<Rightarrow> error + pyfloat" where
  "py_float s =
     (let t = strip s;
          neg = (t \<noteq> [] \<and> hd t = CHR ''-'');
          body = (if t \<noteq> [] \<and> (hd t = CHR ''-'' \<or> hd t = CHR ''+'') then tl t else t);
          low = map lower body
      in if low = ''inf'' \<or> low = ''infinity'' then Inr (if neg then NegInf else PosInf)
         else if low = ''nan'' then Inr NaN
         else
           (case floatnumber body of
              None \<Rightarrow> Inl ValueError
            | Some q \<Rightarrow> Inr (round_double (if neg then - q else q))))"

subsection \<open>Floor division and remainder\<close>

text \<open>
  \<^verbatim>\<open>v // w\<close> and \<^verbatim>\<open>v % w\<close> for a float \<open>v\<close> and a finite \<open>w > 0\<close>, as CPython computes them
  (\<^verbatim>\<open>float_divmod\<close>, \<^verbatim>\<open>float_rem\<close>): C's \<^verbatim>\<open>fmod\<close> is exact and has the sign of \<open>v\<close>;
  \<^verbatim>\<open>div = (v - mod) / w\<close> is rounded twice; a negative \<^verbatim>\<open>mod\<close> is moved up by \<open>w\<close> and
  \<^verbatim>\<open>div\<close> down by one; the quotient is \<^verbatim>\<open>floor(div)\<close>, one more when \<^verbatim>\<open>div\<close> lies more than a
  half above it. An infinite or NaN \<open>v\<close> gives NaN. \<^verbatim>\<open>int(x)\<close> raises \<^verbatim>\<open>ValueError\<close> on a
  NaN and \<^verbatim>\<open>OverflowError\<close> on an infinity.
\<close>

definition fmod :: "real \<Rightarrow> real \<Rightarrow> real" where
  "fmod v w = v - w * of_int (if 0 \<le> v / w then \<lfloor>v / w\<rfloor> else \<lceil>v / w\<rceil>)"

definition float_rem :: "pyfloat \<Rightarrow> real \<Rightarrow> pyfloat" where
  "float_rem v w =
     (case v of
        Finite x \<Rightarrow> (let m = fmod x w in if m < 0 then round_double (m + w) else Finite m)
      | _ \<Rightarrow> NaN)"

definition float_floordiv :: "pyfloat \<Rightarrow> real \<Rightarrow> pyfloat" where
  "float_floordiv v w =
     (case v of
        Finite x \<Rightarrow>
          (let m = fmod x w in
           case round_double (x - m) of
             Finite a \<Rightarrow>
               (case round_double (a / w) of
                  Finite b \<Rightarrow>
                    (case (if m < 0 then round_double (b - 1) else Finite b) of
                       Finite q \<Rightarrow>
                         if q = 0 then Finite 0
                         else if 1 / 2 < q - of_int \<lfloor>q\<rfloor> then round_double (of_int \<lfloor>q\<rfloor> + 1)
                         else Finite (of_int \<lfloor>q\<rfloor>)
                     | other \<Rightarrow> other)
                | other \<Rightarrow> other)
           | other \<Rightarrow> other)
      | _ \<Rightarrow> NaN)"

definition py_int :: "pyfloat \<Rightarrow> error + int" where
  "py_int v =
     (case v of
        Finite x \<Rightarrow> Inr (if 0 \<le> x then \<lfloor>x\<rfloor> else \<lceil>x\<rceil>)
      | NaN \<Rightarrow> Inl ValueError
      | _ \<Rightarrow> Inl OverflowError)"

section \<open>The monitor\<close>

text \<open>
  A dictionary from user name to CPU seconds, in insertion order as Python keeps it:
  \<^verbatim>\<open>d[k] = v\<close> is \<^const>\<open>AList.update\<close> (a new key goes last), \<^verbatim>\<open>d.get(k, 0)\<close> is \<open>get\<close>.
\<close>

type_synonym usage = "(string \<times> pyfloat) list"

definition get :: "usage \<Rightarrow> string \<Rightarrow> pyfloat" where
  "get d k = (case map_of d k of None \<Rightarrow> Finite 0 | Some v \<Rightarrow> v)"

definition IGNORANT_USERS :: "string list" where
  "IGNORANT_USERS = [''root'', ''_apt'', ''sshd'', ''man'', ''fwupd-re'', ''www-data'']"

text \<open>
  The loop of \<^verbatim>\<open>__init__\<close> over the lines of \<^verbatim>\<open>/etc/passwd\<close>, with \<^verbatim>\<open>os.path.isdir\<close> as a
  parameter:
  \<^verbatim>\<open>
  parts = line.split(":"); username = parts[0]; home_directory = parts[5]
  if os.path.isdir(home_directory) and "home" in home_directory:
      self.ALIVE_USERS.append(username[:8])
  \<close>
  A line of fewer than six fields raises \<^verbatim>\<open>IndexError\<close>.
\<close>

fun init_ALIVE_USERS :: "(string \<Rightarrow> bool) \<Rightarrow> string list \<Rightarrow> string list \<Rightarrow> error + string list" where
  "init_ALIVE_USERS isdir [] alive = Inr alive"
| "init_ALIVE_USERS isdir (line # lines) alive =
     (let parts = split_sep CHR '':'' line in
      if length parts \<le> 5 then Inl IndexError
      else
        let username = parts ! 0; home_directory = parts ! 5 in
        if isdir home_directory \<and> contains home_directory ''home''
        then init_ALIVE_USERS isdir lines (alive @ [take 8 username])
        else init_ALIVE_USERS isdir lines alive)"

definition ALIVE_USERS :: "(string \<Rightarrow> bool) \<Rightarrow> string \<Rightarrow> error + string list" where
  "ALIVE_USERS isdir passwd = init_ALIVE_USERS isdir (readlines passwd) []"

text \<open>
  The loop of \<^verbatim>\<open>parse_log\<close> over the lines of a file:
  \<^verbatim>\<open>
  if line.strip() and not line.startswith("Date:"):
      parts = line.split()
      if len(parts) > 1:
          user = parts[0]
          if user not in self.ALIVE_USERS or user in IGNORANT_USERS: continue
          cpu_time = float(parts[1])
          user_cpu[user] = user_cpu.get(user, 0) + cpu_time
  \<close>
  \<^verbatim>\<open>float\<close> raises \<^verbatim>\<open>ValueError\<close> on a string that is no number, and nothing catches it.
\<close>

fun parse_lines :: "string list \<Rightarrow> string list \<Rightarrow> usage \<Rightarrow> error + usage" where
  "parse_lines alive [] user_cpu = Inr user_cpu"
| "parse_lines alive (line # lines) user_cpu =
     (if strip line \<noteq> [] \<and> \<not> startswith line ''Date:'' then
        let parts = split line in
        if length parts > 1 then
          let user = parts ! 0 in
          if user \<notin> set alive \<or> user \<in> set IGNORANT_USERS then parse_lines alive lines user_cpu
          else
            (case py_float (parts ! 1) of
               Inl e \<Rightarrow> Inl e
             | Inr cpu_time \<Rightarrow>
                 parse_lines alive lines
                   (AList.update user (fadd (get user_cpu user) cpu_time) user_cpu))
        else parse_lines alive lines user_cpu
      else parse_lines alive lines user_cpu)"

text \<open>\<open>parse_log alive text\<close>: \<^verbatim>\<open>self.ALIVE_USERS\<close> and the text of the file at \<^verbatim>\<open>file_path\<close>.\<close>

definition parse_log :: "string list \<Rightarrow> string \<Rightarrow> error + usage" where
  "parse_log alive text = parse_lines alive (readlines text) []"

text \<open>
  The inner loop of \<^verbatim>\<open>aggregate_cpu_usage\<close>:
  \<^verbatim>\<open>for user, cpu_time in daily_usage.items():
      self.total_usage[user] = self.total_usage.get(user, 0) + cpu_time\<close>
\<close>

fun add_daily_usage :: "usage \<Rightarrow> usage \<Rightarrow> usage" where
  "add_daily_usage total_usage [] = total_usage"
| "add_daily_usage total_usage ((user, cpu_time) # daily_usage) =
     add_daily_usage (AList.update user (fadd (get total_usage user) cpu_time) total_usage)
       daily_usage"

text \<open>
  The outer loop, over \<^verbatim>\<open>os.listdir(log_dir)\<close>: an entry that is a regular file
  (\<^verbatim>\<open>os.path.isfile\<close>) is parsed and added, any other entry is passed over; an exception of
  \<^verbatim>\<open>parse_log\<close> ends the aggregation.
\<close>

fun aggregate_files :: "string list \<Rightarrow> directory \<Rightarrow> string list \<Rightarrow> usage \<Rightarrow> error + usage" where
  "aggregate_files alive d [] total_usage = Inr total_usage"
| "aggregate_files alive d (file_name # file_names) total_usage =
     (case map_of d file_name of
        Some (File text) \<Rightarrow>
          (case parse_log alive text of
             Inl e \<Rightarrow> Inl e
           | Inr daily_usage \<Rightarrow>
               aggregate_files alive d file_names (add_daily_usage total_usage daily_usage))
      | _ \<Rightarrow> aggregate_files alive d file_names total_usage)"

definition aggregate_cpu_usage :: "string list \<Rightarrow> directory \<Rightarrow> error + usage" where
  "aggregate_cpu_usage alive d = aggregate_files alive d (listdir d) []"

text \<open>What the loops of \<^verbatim>\<open>aggregate_cpu_usage\<close> do with the records of the files, in the
  order of the listing.\<close>

definition aggregate :: "usage list \<Rightarrow> usage" where
  "aggregate records = foldl add_daily_usage [] records"

text \<open>
  \<^verbatim>\<open>save_logs\<close>. \<^verbatim>\<open>subprocess.run(["sudo", "sa", "-u"], capture_output=True, text=True)\<close> either
  raises an \<^verbatim>\<open>OSError\<close> (the program cannot be started) or returns a completed process with
  its return code and its output, read with universal newlines. There is no \<^verbatim>\<open>check=True\<close>
  and the return code is not read. \<^verbatim>\<open>str(today)\<close> is the ISO date. The directory is the
  state here, so \<^verbatim>\<open>os.makedirs(log_dir, exist_ok=True)\<close> changes nothing; opening the file of
  the day for writing raises when a directory has its name.
\<close>

record date =
  year :: nat
  month :: nat
  day :: nat

definition isoformat :: "date \<Rightarrow> string" where
  "isoformat t =
     zero_pad 4 (str_nat (year t)) @ ''-'' @ zero_pad 2 (str_nat (month t)) @ ''-''
       @ zero_pad 2 (str_nat (day t))"

datatype completed_process = CompletedProcess (returncode: int) (stdout: string)

definition run_text :: "int \<Rightarrow> string \<Rightarrow> completed_process" where
  "run_text code raw_output = CompletedProcess code (universal_newlines raw_output)"

definition write_file :: "string \<Rightarrow> string \<Rightarrow> directory \<Rightarrow> error + directory" where
  "write_file name text d =
     (case map_of d name of
        Some Dir \<Rightarrow> Inl IsADirectoryError
      | _ \<Rightarrow> Inr (AList.update name (File text) d))"

definition log_entry :: "date \<Rightarrow> string \<Rightarrow> string" where
  "log_entry today out = ''Date: '' @ isoformat today @ [newline] @ out @ [newline]"

definition save_logs :: "date \<Rightarrow> error + completed_process \<Rightarrow> directory \<Rightarrow> error + directory" where
  "save_logs today run d =
     (case run of
        Inl e \<Rightarrow> Inl e
      | Inr result \<Rightarrow> write_file (isoformat today @ ''.log'') (log_entry today (stdout result)) d)"

text \<open>
  \<^verbatim>\<open>_human_readable_time\<close>:
  \<^verbatim>\<open>hours = int(seconds // 3600); minutes = int((seconds % 3600) // 60)
  return f"{hours} hours {minutes} minutes"\<close>
\<close>

definition human_readable_time :: "pyfloat \<Rightarrow> error + string" where
  "human_readable_time seconds =
     (case py_int (float_floordiv seconds 3600) of
        Inl e \<Rightarrow> Inl e
      | Inr hours \<Rightarrow>
          (case py_int (float_floordiv (float_rem seconds 3600) 60) of
             Inl e \<Rightarrow> Inl e
           | Inr minutes \<Rightarrow> Inr (str_int hours @ '' hours '' @ str_int minutes @ '' minutes'')))"

text \<open>A line that gets as far as \<^verbatim>\<open>float(parts[1])\<close> in \<^verbatim>\<open>parse_log\<close>: every other line is
  passed over.\<close>

definition reaches_float :: "string list \<Rightarrow> string \<Rightarrow> bool" where
  "reaches_float alive line =
     (strip line \<noteq> [] \<and> \<not> startswith line ''Date:'' \<and> length (split line) > 1
      \<and> split line ! 0 \<in> set alive \<and> split line ! 0 \<notin> set IGNORANT_USERS)"

text \<open>The CPU seconds of the lines of \<open>user\<close> that reach \<^verbatim>\<open>float\<close>, in the order of the
  lines.\<close>

fun cpu_times :: "string list \<Rightarrow> string \<Rightarrow> string list \<Rightarrow> pyfloat list" where
  "cpu_times alive user [] = []"
| "cpu_times alive user (line # lines) =
     (if reaches_float alive line \<and> split line ! 0 = user
      then (case py_float (split line ! 1) of
              Inr cpu_time \<Rightarrow> cpu_time # cpu_times alive user lines
            | Inl e \<Rightarrow> cpu_times alive user lines)
      else cpu_times alive user lines)"

text \<open>\<^verbatim>\<open>all(v >= 0 for v in d.values())\<close>.\<close>

definition nonneg_usage :: "usage \<Rightarrow> bool" where
  "nonneg_usage d = list_all (\<lambda>(user, cpu_time). nonneg cpu_time) d"

text \<open>Every second field that \<^verbatim>\<open>parse_log\<close> turns into a float is a number \<^verbatim>\<open>>= 0\<close>.\<close>

definition nonneg_fields :: "string list \<Rightarrow> string \<Rightarrow> bool" where
  "nonneg_fields alive text =
     list_all (\<lambda>line. reaches_float alive line \<longrightarrow>
                 (case py_float (split line ! 1) of Inr v \<Rightarrow> nonneg v | Inl e \<Rightarrow> True))
       (readlines text)"

text \<open>The records \<^verbatim>\<open>aggregate_cpu_usage\<close> adds up: the mapping of every regular file of the
  listing, in its order.\<close>

fun daily_records :: "string list \<Rightarrow> directory \<Rightarrow> string list \<Rightarrow> usage list" where
  "daily_records alive d [] = []"
| "daily_records alive d (file_name # file_names) =
     (case map_of d file_name of
        Some (File t) \<Rightarrow>
          (case parse_log alive t of
             Inr daily_usage \<Rightarrow> daily_usage # daily_records alive d file_names
           | Inl e \<Rightarrow> daily_records alive d file_names)
      | _ \<Rightarrow> daily_records alive d file_names)"

text \<open>The values of \<open>user\<close> in a sequence of entries, in their order.\<close>

definition values_of :: "string \<Rightarrow> usage \<Rightarrow> pyfloat list" where
  "values_of user entries = map snd (filter (\<lambda>(u, v). u = user) entries)"

text \<open>A whole, non-negative number of seconds; the seconds of a finite value.\<close>

definition whole :: "pyfloat \<Rightarrow> bool" where
  "whole v = (case v of Finite x \<Rightarrow> 0 \<le> x \<and> of_int \<lfloor>x\<rfloor> = x | _ \<Rightarrow> False)"

definition seconds_of :: "pyfloat \<Rightarrow> real" where
  "seconds_of v = (case v of Finite x \<Rightarrow> x | _ \<Rightarrow> 0)"

text \<open>Records of whole seconds whose grand total is below \<open>2 ^ 53\<close>: no sum of them is
  rounded.\<close>

definition whole_seconds :: "usage list \<Rightarrow> bool" where
  "whole_seconds records =
     (list_all (\<lambda>(u, v). whole v) (concat records)
      \<and> sum_list (map (\<lambda>(u, v). seconds_of v) (concat records)) < 2 ^ 53)"

text \<open>\<^verbatim>\<open>parse_log\<close> returns on the entry \<open>file_name\<close>, or the entry is no regular file and is
  not parsed.\<close>

definition parses :: "string list \<Rightarrow> directory \<Rightarrow> string \<Rightarrow> bool" where
  "parses alive d file_name =
     (case map_of d file_name of
        Some (File t) \<Rightarrow> (case parse_log alive t of Inl e \<Rightarrow> False | Inr daily_usage \<Rightarrow> True)
      | _ \<Rightarrow> True)"

section \<open>Pruning\<close>

lemma map_of_delete_other:
  "name' \<noteq> name \<Longrightarrow> map_of (AList.delete name d) name' = map_of d name'"
  by (simp add: AList.delete_conv')

lemma only_files_delete: "only_files d \<Longrightarrow> only_files (AList.delete name d)"
  by (induction d) (auto simp: only_files_def)

lemma listdir_delete: "listdir (AList.delete name d) = removeAll name (listdir d)"
  by (induction d) (auto simp: listdir_def)

lemma only_files_lookup:
  "only_files d \<Longrightarrow> name \<in> set (listdir d) \<Longrightarrow> \<exists>t. map_of d name = Some (File t)"
proof (induction d)
  case Nil
  then show ?case by (simp add: listdir_def)
next
  case (Cons p d)
  obtain n e where p: "p = (n, e)" by (cases p)
  show ?case
  proof (cases "n = name")
    case True
    with Cons.prems p show ?thesis by (cases e) (auto simp: only_files_def)
  next
    case False
    with Cons p show ?thesis by (auto simp: only_files_def listdir_def)
  qed
qed

lemma remove_each_files:
  "only_files d \<Longrightarrow> distinct names \<Longrightarrow> set names \<subseteq> set (listdir d) \<Longrightarrow>
   remove_each names d = Inr (filter (\<lambda>(n, e). n \<notin> set names) d)"
proof (induction names arbitrary: d)
  case Nil
  then show ?case by simp
next
  case (Cons name names)
  from Cons.prems obtain t where t: "map_of d name = Some (File t)"
    using only_files_lookup [of d name] by auto
  have step: "remove name d = Inr (AList.delete name d)"
    by (simp add: remove_def t)
  have sub: "set names \<subseteq> set (listdir (AList.delete name d))"
    using Cons.prems by (auto simp: listdir_delete)
  have "remove_each names (AList.delete name d) =
        Inr (filter (\<lambda>(n, e). n \<notin> set names) (AList.delete name d))"
    using Cons.IH [OF only_files_delete [OF Cons.prems(1)] _ sub] Cons.prems(2) by simp
  moreover have "filter (\<lambda>(n, e). n \<notin> set names) (AList.delete name d) =
                 filter (\<lambda>(n, e). n \<notin> set (name # names)) d"
    by (induction d) auto
  ultimately show ?case by (simp add: step)
qed

lemma listdir_filter:
  "listdir (filter (\<lambda>(n, e). P n) d) = filter P (listdir d)"
  by (induction d) (auto simp: listdir_def)

lemma filter_names_all:
  "set (listdir d) \<subseteq> S \<Longrightarrow> filter (\<lambda>(n, e). n \<in> S) d = d"
  by (induction d) (auto simp: listdir_def)

lemma clear_previous_logs_result:
  assumes "only_files d" and "distinct (listdir d)"
  shows "clear_previous_logs d =
         Inr (filter (\<lambda>(n, e). n \<in> set (drop (length (listdir d) - 7) (sort (listdir d)))) d)"
proof -
  let ?files = "listdir d"
  let ?s = "sort ?files"
  let ?k = "length ?files - 7"
  have ds: "distinct ?s" using assms(2) by simp
  have split: "take ?k ?s @ drop ?k ?s = ?s" by simp
  have disj: "set (take ?k ?s) \<inter> set (drop ?k ?s) = {}"
    using ds by (metis distinct_append split)
  have un: "set (take ?k ?s) \<union> set (drop ?k ?s) = set ?files"
    by (metis set_append split set_sort)
  have mem: "\<And>n. n \<in> set ?files \<Longrightarrow> n \<notin> set (take ?k ?s) \<longleftrightarrow> n \<in> set (drop ?k ?s)"
    using disj un by blast
  have same: "filter (\<lambda>(n, e). n \<notin> set (take ?k ?s)) d = filter (\<lambda>(n, e). n \<in> set (drop ?k ?s)) d"
  proof (rule filter_cong [OF refl])
    fix p assume "p \<in> set d"
    then have "fst p \<in> set ?files" by (simp add: listdir_def)
    from mem [OF this] show "(case p of (n, e) \<Rightarrow> n \<notin> set (take ?k ?s)) = (case p of (n, e) \<Rightarrow> n \<in> set (drop ?k ?s))"
      by (simp add: case_prod_beta)
  qed
  show ?thesis
  proof (cases "length ?files > 7")
    case True
    have "remove_each (take ?k ?s) d = Inr (filter (\<lambda>(n, e). n \<notin> set (take ?k ?s)) d)"
      by (rule remove_each_files [OF assms(1)]) (use ds un in auto)
    with True same show ?thesis by (simp add: clear_previous_logs_def Let_def)
  next
    case False
    then have "drop ?k ?s = ?s" by simp
    then have "filter (\<lambda>(n, e). n \<in> set (drop ?k ?s)) d = d"
      by (simp add: filter_names_all)
    with False show ?thesis by (simp add: clear_previous_logs_def Let_def)
  qed
qed

text \<open>
  Claim C2. Started on a directory of distinct regular files, \<open>clear_previous_logs\<close>
  returns without an exception; the entries left are \<open>min 7 n\<close> of the \<open>n\<close> it started
  with, their names are the last \<open>7\<close> of the sorted listing, every removed name is
  strictly below every surviving one, the surviving entries are unchanged, and a directory
  of at most \<open>7\<close> entries is returned as it is.
\<close>

theorem clear_previous_logs_keeps_newest:
  assumes "only_files d" and "distinct (listdir d)"
  shows "\<exists>d'. clear_previous_logs d = Inr d'
           \<and> length (listdir d') = min 7 (length (listdir d))
           \<and> set (listdir d') = set (drop (length (listdir d) - 7) (sort (listdir d)))
           \<and> (\<forall>x \<in> set (listdir d) - set (listdir d'). \<forall>y \<in> set (listdir d'). x < y)
           \<and> d' = filter (\<lambda>(n, e). n \<in> set (listdir d')) d
           \<and> (length (listdir d) \<le> 7 \<longrightarrow> d' = d)"
proof -
  let ?files = "listdir d"
  let ?s = "sort ?files"
  let ?k = "length ?files - 7"
  let ?keep = "drop ?k ?s"
  let ?d' = "filter (\<lambda>(n, e). n \<in> set ?keep) d"
  have res: "clear_previous_logs d = Inr ?d'"
    by (rule clear_previous_logs_result [OF assms])
  have ds: "distinct ?s" using assms(2) by simp
  have sub: "set ?keep \<subseteq> set ?files"
    by (metis set_drop_subset set_sort)
  have names: "listdir ?d' = filter (\<lambda>n. n \<in> set ?keep) ?files"
    by (rule listdir_filter)
  have set_eq: "set (listdir ?d') = set ?keep"
    using sub by (auto simp: names)
  have "distinct (listdir ?d')" using assms(2) by (simp add: names)
  then have "length (listdir ?d') = card (set ?keep)"
    using set_eq by (metis distinct_card)
  also have "\<dots> = length ?keep" using ds by (simp add: distinct_card)
  also have "\<dots> = min 7 (length ?files)" by auto
  finally have len: "length (listdir ?d') = min 7 (length ?files)" .
  have order: "\<forall>x \<in> set ?files - set (listdir ?d'). \<forall>y \<in> set (listdir ?d'). x < y"
  proof (intro ballI)
    fix x y
    assume x: "x \<in> set ?files - set (listdir ?d')" and y: "y \<in> set (listdir ?d')"
    have split: "take ?k ?s @ ?keep = ?s" by simp
    from x set_eq have "x \<in> set ?s" "x \<notin> set ?keep" by auto
    then have xt: "x \<in> set (take ?k ?s)" by (metis Un_iff set_append split)
    from y set_eq have yk: "y \<in> set ?keep" by simp
    have "sorted (take ?k ?s @ ?keep)" by (simp only: split sorted_sort)
    then have "\<forall>a \<in> set (take ?k ?s). \<forall>b \<in> set ?keep. a \<le> b"
      by (simp only: sorted_append) blast
    then have "x \<le> y" using xt yk by blast
    moreover have "x \<noteq> y" using \<open>x \<notin> set ?keep\<close> yk by auto
    ultimately show "x < y" by simp
  qed
  have self: "?d' = filter (\<lambda>(n, e). n \<in> set (listdir ?d')) d"
    by (simp only: set_eq)
  have noop: "length ?files \<le> 7 \<longrightarrow> ?d' = d"
    by (simp add: filter_names_all)
  from res len set_eq order self noop show ?thesis by blast
qed

text \<open>
  Claim C7. Pruning is idempotent: when \<open>clear_previous_logs\<close> has returned the directory
  \<open>d'\<close>, a second run on \<open>d'\<close> returns \<open>d'\<close> again and removes nothing.
\<close>

theorem clear_previous_logs_idempotent:
  assumes "only_files d" and "distinct (listdir d)" and "clear_previous_logs d = Inr d'"
  shows "clear_previous_logs d' = Inr d'"
proof -
  let ?keep = "drop (length (listdir d) - 7) (sort (listdir d))"
  from clear_previous_logs_result [OF assms(1,2)] assms(3)
  have d': "d' = filter (\<lambda>(n, e). n \<in> set ?keep) d" by simp
  have "distinct (listdir d')" using assms(2) by (simp add: d' listdir_filter)
  moreover have "set (listdir d') \<subseteq> set ?keep" by (auto simp: d' listdir_filter)
  ultimately have "length (listdir d') \<le> card (set ?keep)"
    by (metis distinct_card card_mono List.finite_set)
  also have "\<dots> \<le> length ?keep" by (rule card_length)
  also have "\<dots> \<le> 7" by simp
  finally have "\<not> length (listdir d') > 7" by simp
  then show ?thesis by (simp add: clear_previous_logs_def Let_def)
qed

theorem clear_previous_logs_keeps_newest_witness:
  "only_files [(''2024-03-04.log'', File ''d''), (''2024-03-01.log'', File ''a''),
      (''2024-03-09.log'', File ''i''), (''2024-03-02.log'', File ''b''),
      (''2024-03-07.log'', File ''g''), (''2024-03-03.log'', File ''c''),
      (''2024-03-08.log'', File ''h''), (''2024-03-05.log'', File ''e''),
      (''2024-03-06.log'', File ''f'')]
   \<and> clear_previous_logs [(''2024-03-04.log'', File ''d''), (''2024-03-01.log'', File ''a''),
      (''2024-03-09.log'', File ''i''), (''2024-03-02.log'', File ''b''),
      (''2024-03-07.log'', File ''g''), (''2024-03-03.log'', File ''c''),
      (''2024-03-08.log'', File ''h''), (''2024-03-05.log'', File ''e''),
      (''2024-03-06.log'', File ''f'')]
     = Inr [(''2024-03-04.log'', File ''d''), (''2024-03-09.log'', File ''i''),
      (''2024-03-07.log'', File ''g''), (''2024-03-03.log'', File ''c''),
      (''2024-03-08.log'', File ''h''), (''2024-03-05.log'', File ''e''),
      (''2024-03-06.log'', File ''f'')]"
  (is "only_files ?d \<and> clear_previous_logs ?d = Inr ?r")
proof -
  have files: "only_files ?d" by (simp add: only_files_def)
  have names: "distinct (listdir ?d)" by (simp add: listdir_def)
  from clear_previous_logs_keeps_newest [OF files names]
  obtain d' where run: "clear_previous_logs ?d = Inr d'"
    and keep: "set (listdir d') = set (drop (length (listdir ?d) - 7) (sort (listdir ?d)))"
    and rest: "d' = filter (\<lambda>(n, e). n \<in> set (listdir d')) ?d"
    by blast
  have "set (listdir d') = {''2024-03-03.log'', ''2024-03-04.log'', ''2024-03-05.log'',
      ''2024-03-06.log'', ''2024-03-07.log'', ''2024-03-08.log'', ''2024-03-09.log''}"
    unfolding keep by (simp add: listdir_def)
  with rest have "d' = ?r" by simp
  with files run show ?thesis by simp
qed

theorem clear_previous_logs_idempotent_witness:
  "clear_previous_logs [(''3.log'', File ''c''), (''1.log'', File ''a''), (''8.log'', File ''h''),
      (''2.log'', File ''b''), (''7.log'', File ''g''), (''5.log'', File ''e''),
      (''4.log'', File ''d''), (''6.log'', File ''f'')]
     = Inr [(''3.log'', File ''c''), (''8.log'', File ''h''), (''2.log'', File ''b''),
      (''7.log'', File ''g''), (''5.log'', File ''e''), (''4.log'', File ''d''),
      (''6.log'', File ''f'')]
   \<and> clear_previous_logs [(''3.log'', File ''c''), (''8.log'', File ''h''), (''2.log'', File ''b''),
      (''7.log'', File ''g''), (''5.log'', File ''e''), (''4.log'', File ''d''),
      (''6.log'', File ''f'')]
     = Inr [(''3.log'', File ''c''), (''8.log'', File ''h''), (''2.log'', File ''b''),
      (''7.log'', File ''g''), (''5.log'', File ''e''), (''4.log'', File ''d''),
      (''6.log'', File ''f'')]"
  (is "clear_previous_logs ?d = Inr ?r \<and> clear_previous_logs ?r = Inr ?r")
proof -
  have files: "only_files ?d" by (simp add: only_files_def)
  have names: "distinct (listdir ?d)" by (simp add: listdir_def)
  have run: "clear_previous_logs ?d = Inr ?r"
    by (simp add: clear_previous_logs_def listdir_def remove_def)
  from clear_previous_logs_idempotent [OF files names run] run show ?thesis by simp
qed

section \<open>Parsing\<close>

lemma py_float_error: "py_float s = Inl e \<Longrightarrow> e = ValueError"
  by (auto simp: py_float_def Let_def split: option.splits if_splits)

lemma parse_lines_skip:
  "\<not> reaches_float alive line \<Longrightarrow>
   parse_lines alive (line # lines) user_cpu = parse_lines alive lines user_cpu"
  by (auto simp: reaches_float_def Let_def)

lemma parse_lines_float:
  "reaches_float alive line \<Longrightarrow>
   parse_lines alive (line # lines) user_cpu =
     (case py_float (split line ! 1) of
        Inl e \<Rightarrow> Inl e
      | Inr cpu_time \<Rightarrow>
          parse_lines alive lines
            (AList.update (split line ! 0) (fadd (get user_cpu (split line ! 0)) cpu_time) user_cpu))"
  by (auto simp: reaches_float_def Let_def)

declare parse_lines.simps(2) [simp del]

lemma parse_lines_filter:
  "parse_lines alive lines user_cpu = parse_lines alive (filter (reaches_float alive) lines) user_cpu"
proof (induction lines arbitrary: user_cpu)
  case Nil
  show ?case by simp
next
  case (Cons line lines)
  show ?case
  proof (cases "reaches_float alive line")
    case True
    then show ?thesis
      using Cons.IH by (simp add: parse_lines_float split: sum.splits)
  next
    case False
    then show ?thesis using Cons.IH by (simp add: parse_lines_skip)
  qed
qed

lemma parse_lines_raises_iff:
  "(\<exists>e. parse_lines alive lines user_cpu = Inl e) \<longleftrightarrow>
   (\<exists>line \<in> set lines. reaches_float alive line \<and> (\<exists>e. py_float (split line ! 1) = Inl e))"
proof (induction lines arbitrary: user_cpu)
  case Nil
  show ?case by simp
next
  case (Cons line lines)
  show ?case
  proof (cases "reaches_float alive line")
    case True
    show ?thesis
    proof (cases "py_float (split line ! 1)")
      case (Inl e)
      with True show ?thesis by (auto simp: parse_lines_float)
    next
      case (Inr v)
      with True Cons.IH show ?thesis by (auto simp: parse_lines_float)
    qed
  next
    case False
    with Cons.IH show ?thesis by (auto simp: parse_lines_skip)
  qed
qed

lemma parse_lines_error: "parse_lines alive lines user_cpu = Inl e \<Longrightarrow> e = ValueError"
proof (induction lines arbitrary: user_cpu)
  case Nil
  then show ?case by simp
next
  case (Cons line lines)
  show ?case
  proof (cases "reaches_float alive line")
    case True
    with Cons show ?thesis
      by (auto simp: parse_lines_float split: sum.splits dest: py_float_error)
  next
    case False
    with Cons show ?thesis by (simp add: parse_lines_skip)
  qed
qed

text \<open>
  Claim C1, as the code has it. \<open>parse_log\<close> passes over every line that does not reach
  \<^verbatim>\<open>float\<close> (blank, a \<^verbatim>\<open>Date:\<close> line, fewer than two fields, a first field that is not allowed
  or is denied) and goes on with the rest. A line that reaches \<^verbatim>\<open>float\<close> with a second field
  that is no number is not skipped: \<open>parse_log\<close> raises \<^verbatim>\<open>ValueError\<close>, exactly when there is
  such a line, and returns a mapping otherwise.
\<close>

theorem parse_log_raises_on_bad_number:
  "parse_log alive text = parse_lines alive (filter (reaches_float alive) (readlines text)) []
   \<and> (parse_log alive text = Inl ValueError \<longleftrightarrow>
        (\<exists>line \<in> set (readlines text).
            reaches_float alive line \<and> py_float (split line ! 1) = Inl ValueError))
   \<and> (parse_log alive text = Inl ValueError \<or> (\<exists>user_cpu. parse_log alive text = Inr user_cpu))"
proof -
  let ?lines = "readlines text"
  have a: "parse_log alive text = parse_lines alive (filter (reaches_float alive) ?lines) []"
    unfolding parse_log_def by (rule parse_lines_filter)
  have err: "\<And>e. parse_log alive text = Inl e \<Longrightarrow> e = ValueError"
    unfolding parse_log_def by (rule parse_lines_error)
  have "(\<exists>e. parse_log alive text = Inl e) \<longleftrightarrow>
        (\<exists>line \<in> set ?lines. reaches_float alive line \<and> (\<exists>e. py_float (split line ! 1) = Inl e))"
    unfolding parse_log_def by (rule parse_lines_raises_iff)
  then have b: "parse_log alive text = Inl ValueError \<longleftrightarrow>
        (\<exists>line \<in> set ?lines. reaches_float alive line \<and> py_float (split line ! 1) = Inl ValueError)"
    using err py_float_error by metis
  have c: "parse_log alive text = Inl ValueError \<or> (\<exists>user_cpu. parse_log alive text = Inr user_cpu)"
    using err by (cases "parse_log alive text") auto
  from a b c show ?thesis by blast
qed

theorem parse_log_raises_on_bad_number_witness:
  "parse_log [''alice'', ''bob''] ''bob notanumber'' = Inl ValueError
   \<and> parse_log [''alice''] (''alice 3600'' @ [newline] @ ''bob notanumber'' @ [newline])
       = parse_lines [''alice''] [''alice 3600'' @ [newline]] []"
proof -
  have "reaches_float [''alice'', ''bob''] ''bob notanumber''"
    by (simp add: reaches_float_def strip_def isspace_def startswith_def split_def
        IGNORANT_USERS_def)
  moreover have "py_float (split ''bob notanumber'' ! 1) = Inl ValueError"
    by (simp add: split_def isspace_def py_float_def strip_def floatnumber_def number_def
        lower_def isdigit_def)
  moreover have "readlines ''bob notanumber'' = [''bob notanumber'']"
    by (simp add: readlines_def)
  ultimately have "parse_log [''alice'', ''bob''] ''bob notanumber'' = Inl ValueError"
    using parse_log_raises_on_bad_number
      [of "[''alice'', ''bob'']" "''bob notanumber''", THEN conjunct2, THEN conjunct1]
    by simp
  moreover have "filter (reaches_float [''alice''])
      (readlines (''alice 3600'' @ [newline] @ ''bob notanumber'' @ [newline]))
      = [''alice 3600'' @ [newline]]"
    by (simp add: readlines_def reaches_float_def strip_def isspace_def startswith_def split_def
        IGNORANT_USERS_def)
  then have "parse_log [''alice''] (''alice 3600'' @ [newline] @ ''bob notanumber'' @ [newline])
       = parse_lines [''alice''] [''alice 3600'' @ [newline]] []"
    using parse_log_raises_on_bad_number
      [of "[''alice'']" "''alice 3600'' @ [newline] @ ''bob notanumber'' @ [newline]",
       THEN conjunct1]
    by simp
  ultimately show ?thesis by simp
qed

lemma py_float_notanumber: "py_float ''notanumber'' = Inl ValueError"
  by (simp add: py_float_def strip_def isspace_def floatnumber_def number_def lower_def isdigit_def)

lemma bitlen_3600: "bitlen 3600 = 12"
  by code_simp

lemma round_double_3600: "round_double 3600 = Finite 3600"
  by (simp add: round_double_def exponent_of_def ilog2_def round_half_even_def Let_def bitlen_3600)

lemma py_float_3600: "py_float ''3600'' = Inr (Finite 3600)"
  by (simp add: py_float_def strip_def isspace_def floatnumber_def number_def lower_def isdigit_def
      decimal_def round_double_3600)

text \<open>The input of claim C1: both users allowed, the second line with a field that is no
  number. The call raises.\<close>

theorem parse_log_bad_number_counterexample:
  "parse_log [''alice'', ''bob''] (''alice 3600'' @ [newline] @ ''bob notanumber'' @ [newline])
     = Inl ValueError"
  by (simp add: parse_log_def readlines_def parse_lines.simps strip_def isspace_def startswith_def split_def
      IGNORANT_USERS_def py_float_3600 py_float_notanumber)

section \<open>Rounding\<close>

lemma round_half_even_of_int: "round_half_even (of_int m) = m"
  by (simp add: round_half_even_def)

lemma round_half_even_nonneg: "0 \<le> x \<Longrightarrow> 0 \<le> round_half_even x"
  by (auto simp: round_half_even_def Let_def)

lemma round_half_even_nonpos: "x \<le> 0 \<Longrightarrow> round_half_even x \<le> 0"
proof -
  assume x: "x \<le> 0"
  then have f: "\<lfloor>x\<rfloor> \<le> 0" by (simp add: floor_le_zero)
  show ?thesis
  proof (cases "\<lfloor>x\<rfloor> = 0")
    case True
    then have "x = 0" using x by (metis floor_le_iff le_floor_iff of_int_0 order_antisym order_refl zero_le_floor)
    then show ?thesis by (simp add: round_half_even_def)
  next
    case False
    with f have "\<lfloor>x\<rfloor> + 1 \<le> 0" by linarith
    with f show ?thesis by (auto simp: round_half_even_def Let_def)
  qed
qed

lemma exponent_of_int:
  assumes "n \<noteq> 0" and "\<bar>n\<bar> < 2 ^ 53"
  shows "exponent_of (of_int n) \<le> 0" and "- 1074 \<le> exponent_of (of_int n)"
proof -
  have "bitlen \<bar>n\<bar> \<le> 53"
    using assms(2) by (simp add: bitlen_le_iff_power)
  moreover have "(1::real) \<le> \<bar>of_int n\<bar>"
  proof -
    have "1 \<le> \<bar>n\<bar>" using assms(1) by simp
    then have "(1::real) \<le> real_of_int \<bar>n\<bar>" by (simp only: of_int_1_le_iff)
    then show ?thesis by simp
  qed
  moreover have "\<lfloor>\<bar>real_of_int n\<bar>\<rfloor> = \<bar>n\<bar>"
    by (metis floor_of_int of_int_abs)
  ultimately show "exponent_of (of_int n) \<le> 0"
    by (simp add: exponent_of_def ilog2_def)
  show "- 1074 \<le> exponent_of (of_int n)"
    by (simp add: exponent_of_def)
qed

lemma round_double_of_int:
  assumes "\<bar>n\<bar> < 2 ^ 53"
  shows "round_double (of_int n) = Finite (of_int n)"
proof (cases "n = 0")
  case True
  then show ?thesis by (simp add: round_double_def)
next
  case False
  define e where "e = exponent_of (of_int n)"
  define k where "k = nat (- e)"
  have e: "e = - int k"
    using exponent_of_int(1) [OF False assms] by (simp add: e_def k_def)
  have p: "(2::real) powi e = 1 / 2 ^ k"
    by (simp add: e power_int_minus_divide)
  have "real_of_int n / 2 powi e = of_int (n * 2 ^ k)"
    by (simp add: p)
  then have m: "round_half_even (real_of_int n / 2 powi e) = n * 2 ^ k"
    by (simp only: round_half_even_of_int)
  have r: "of_int (n * 2 ^ k) * (2::real) powi e = of_int n"
    by (simp add: p)
  have "\<bar>real_of_int n\<bar> < 2 ^ 53"
    using assms by (metis of_int_abs of_int_less_numeral_power_cancel_iff)
  also have "\<dots> < 2 powi 1024" by simp
  finally have small: "\<not> 2 powi 1024 \<le> \<bar>real_of_int n\<bar>" by simp
  let ?r = "of_int (round_half_even (real_of_int n / 2 powi e)) * (2::real) powi e"
  have "round_double (of_int n) =
        (if 2 powi 1024 \<le> \<bar>?r\<bar> then (if 0 < real_of_int n then PosInf else NegInf)
         else Finite ?r)"
    using False by (simp only: round_double_def Let_def e_def of_int_eq_0_iff if_False)
  also have "?r = of_int n" by (simp only: m r)
  finally show ?thesis using small by (simp only: if_False)
qed

lemma round_double_whole:
  "x \<in> \<int> \<Longrightarrow> \<bar>x\<bar> < 2 ^ 53 \<Longrightarrow> round_double x = Finite x"
proof -
  assume "x \<in> \<int>" and b: "\<bar>x\<bar> < 2 ^ 53"
  then obtain n where x: "x = of_int n" by (auto elim: Ints_cases)
  with b have "\<bar>n\<bar> < 2 ^ 53"
    by (metis of_int_abs of_int_less_numeral_power_cancel_iff)
  then show ?thesis unfolding x by (rule round_double_of_int)
qed

lemma nonneg_round_double: "0 \<le> x \<Longrightarrow> nonneg (round_double x)"
  by (auto simp: round_double_def Let_def intro!: mult_nonneg_nonneg round_half_even_nonneg
      divide_nonneg_pos)

lemma nonneg_fadd: "nonneg a \<Longrightarrow> nonneg b \<Longrightarrow> nonneg (fadd a b)"
  by (cases a; cases b) (auto intro: nonneg_round_double)

section \<open>Filtering and summing\<close>

lemma get_update: "get (AList.update k v d) u = (if u = k then v else get d u)"
  by (simp add: get_def AList.update_conv')

lemma cpu_times_none:
  "\<not> (\<exists>line \<in> set lines. reaches_float alive line \<and> split line ! 0 = user) \<Longrightarrow>
   cpu_times alive user lines = []"
  by (induction lines) auto

lemma parse_lines_lookup:
  "parse_lines alive lines user_cpu = Inr m \<Longrightarrow>
   map_of m user =
     (if \<exists>line \<in> set lines. reaches_float alive line \<and> split line ! 0 = user
      then Some (foldl fadd (get user_cpu user) (cpu_times alive user lines))
      else map_of user_cpu user)"
proof (induction lines arbitrary: user_cpu)
  case Nil
  then show ?case by simp
next
  case (Cons line lines)
  show ?case
  proof (cases "reaches_float alive line")
    case False
    with Cons.prems have "parse_lines alive lines user_cpu = Inr m"
      by (simp add: parse_lines_skip)
    from Cons.IH [OF this] False show ?thesis by auto
  next
    case True
    let ?k = "split line ! 0"
    from True Cons.prems obtain v where v: "py_float (split line ! 1) = Inr v"
      and rest: "parse_lines alive lines (AList.update ?k (fadd (get user_cpu ?k) v) user_cpu) = Inr m"
      by (auto simp: parse_lines_float split: sum.splits)
    note IH = Cons.IH [OF rest]
    show ?thesis
    proof (cases "user = ?k")
      case same: True
      show ?thesis
      proof (cases "\<exists>l \<in> set lines. reaches_float alive l \<and> split l ! 0 = user")
        case True
        with IH same \<open>reaches_float alive line\<close> v show ?thesis
          by (auto simp: get_update)
      next
        case False
        then have "cpu_times alive user lines = []" by (rule cpu_times_none)
        with IH same False \<open>reaches_float alive line\<close> v show ?thesis
          by (auto simp: get_update AList.update_conv')
      qed
    next
      case other: False
      with IH True v show ?thesis
        by (auto simp: get_update AList.update_conv')
    qed
  qed
qed

lemma parse_lines_distinct:
  "parse_lines alive lines user_cpu = Inr m \<Longrightarrow> distinct (map fst user_cpu) \<Longrightarrow>
   distinct (map fst m)"
proof (induction lines arbitrary: user_cpu)
  case Nil
  then show ?case by simp
next
  case (Cons line lines)
  show ?case
  proof (cases "reaches_float alive line")
    case False
    with Cons show ?thesis by (simp add: parse_lines_skip)
  next
    case True
    with Cons.prems obtain v where
      "parse_lines alive lines
         (AList.update (split line ! 0) (fadd (get user_cpu (split line ! 0)) v) user_cpu) = Inr m"
      by (auto simp: parse_lines_float split: sum.splits)
    from Cons.IH [OF this] Cons.prems(2) show ?thesis by (simp add: AList.distinct_update)
  qed
qed

lemma parse_log_keys:
  assumes "parse_log alive text = Inr user_cpu"
  shows "fst ` set user_cpu =
         {split line ! 0 |line. line \<in> set (readlines text) \<and> reaches_float alive line}"
proof -
  from assms have run: "parse_lines alive (readlines text) [] = Inr user_cpu"
    by (simp add: parse_log_def)
  have "fst ` set user_cpu = dom (map_of user_cpu)"
    by (simp add: dom_map_of_conv_image_fst)
  also have "\<dots> = {split line ! 0 |line. line \<in> set (readlines text) \<and> reaches_float alive line}"
    using parse_lines_lookup [OF run] by (auto simp: dom_def split: if_splits)
  finally show ?thesis .
qed

lemma parse_log_allowed:
  assumes "parse_log alive text = Inr user_cpu"
  shows "fst ` set user_cpu \<subseteq> set alive - set IGNORANT_USERS"
  unfolding parse_log_keys [OF assms] by (auto simp: reaches_float_def)

lemma keys_add_daily_usage:
  "fst ` set (add_daily_usage total_usage daily_usage) = fst ` set total_usage \<union> fst ` set daily_usage"
proof (induction daily_usage arbitrary: total_usage)
  case Nil
  show ?case by simp
next
  case (Cons p daily_usage)
  obtain user cpu_time where p: "p = (user, cpu_time)" by (cases p)
  have "fst ` set (AList.update user v total_usage) = insert user (fst ` set total_usage)" for v
    using AList.dom_update [of user v total_usage] by (simp add: dom_map_of_conv_image_fst)
  with Cons.IH show ?case by (auto simp: p)
qed

lemma aggregate_files_keys:
  "aggregate_files alive d names total_usage = Inr result \<Longrightarrow>
   fst ` set result \<subseteq> fst ` set total_usage \<union> (set alive - set IGNORANT_USERS)"
proof (induction names arbitrary: total_usage)
  case Nil
  then show ?case by auto
next
  case (Cons name names)
  show ?case
  proof (cases "map_of d name")
    case None
    with Cons show ?thesis by simp
  next
    case (Some e)
    show ?thesis
    proof (cases e)
      case Dir
      with Some Cons show ?thesis by simp
    next
      case (File t)
      with Some Cons.prems obtain daily where daily: "parse_log alive t = Inr daily"
        and rest: "aggregate_files alive d names (add_daily_usage total_usage daily) = Inr result"
        by (auto split: sum.splits)
      from Cons.IH [OF rest] parse_log_allowed [OF daily] show ?thesis
        by (auto simp: keys_add_daily_usage)
    qed
  qed
qed

text \<open>
  Claim C4, as the code has it. \<open>parse_log\<close> returns a mapping exactly when every line that
  reaches \<^verbatim>\<open>float\<close> (a data line of at least two fields whose first field is in
  \<^verbatim>\<open>ALIVE_USERS\<close> and not in \<^verbatim>\<open>IGNORANT_USERS\<close>) has a second field that \<^verbatim>\<open>float\<close> accepts;
  otherwise it raises and there is no mapping. The keys of the mapping it returns are
  exactly the first fields of the lines that reach \<^verbatim>\<open>float\<close>, each key once, and each key is
  mapped to the float sum, from \<open>0\<close> and in the order of the lines, of the second fields of
  its lines, whatever floats they are. No other name is a key of the mapping, nor of a total
  that \<open>aggregate_cpu_usage\<close> returns.
\<close>

theorem parse_log_filters_and_sums:
  "((\<exists>user_cpu. parse_log alive text = Inr user_cpu) \<longleftrightarrow>
      (\<forall>line \<in> set (readlines text).
          reaches_float alive line \<longrightarrow> (\<exists>v. py_float (split line ! 1) = Inr v)))
   \<and> (parse_log alive text = Inr user_cpu \<longrightarrow>
      fst ` set user_cpu =
        {split line ! 0 |line. line \<in> set (readlines text) \<and> reaches_float alive line}
      \<and> (\<forall>user \<in> fst ` set user_cpu.
            map_of user_cpu user =
              Some (foldl fadd (Finite 0) (cpu_times alive user (readlines text))))
      \<and> distinct (map fst user_cpu)
      \<and> fst ` set user_cpu \<subseteq> set alive - set IGNORANT_USERS)
   \<and> (aggregate_cpu_usage alive d = Inr total_usage \<longrightarrow>
        fst ` set total_usage \<subseteq> set alive - set IGNORANT_USERS)"
proof (intro conjI impI)
  have "(\<exists>e. parse_log alive text = Inl e) \<longleftrightarrow>
        (\<exists>line \<in> set (readlines text).
            reaches_float alive line \<and> (\<exists>e. py_float (split line ! 1) = Inl e))"
    unfolding parse_log_def by (rule parse_lines_raises_iff)
  moreover have "(\<exists>user_cpu. parse_log alive text = Inr user_cpu)
                 \<longleftrightarrow> \<not> (\<exists>e. parse_log alive text = Inl e)"
    by (cases "parse_log alive text") simp_all
  moreover have "(\<exists>v. py_float t = Inr v) \<longleftrightarrow> \<not> (\<exists>e. py_float t = Inl e)" for t
    by (cases "py_float t") simp_all
  ultimately show "(\<exists>user_cpu. parse_log alive text = Inr user_cpu) \<longleftrightarrow>
      (\<forall>line \<in> set (readlines text).
          reaches_float alive line \<longrightarrow> (\<exists>v. py_float (split line ! 1) = Inr v))"
    by blast
next
  assume run: "parse_log alive text = Inr user_cpu"
  then have lines: "parse_lines alive (readlines text) [] = Inr user_cpu"
    by (simp add: parse_log_def)
  show "fst ` set user_cpu =
        {split line ! 0 |line. line \<in> set (readlines text) \<and> reaches_float alive line}"
    by (rule parse_log_keys [OF run])
  show "\<forall>user \<in> fst ` set user_cpu.
          map_of user_cpu user = Some (foldl fadd (Finite 0) (cpu_times alive user (readlines text)))"
  proof
    fix user assume "user \<in> fst ` set user_cpu"
    then have "\<exists>line \<in> set (readlines text). reaches_float alive line \<and> split line ! 0 = user"
      unfolding parse_log_keys [OF run] by auto
    with parse_lines_lookup [OF lines, of user]
    show "map_of user_cpu user = Some (foldl fadd (Finite 0) (cpu_times alive user (readlines text)))"
      by (simp add: get_def)
  qed
  show "distinct (map fst user_cpu)"
    using parse_lines_distinct [OF lines] by simp
  show "fst ` set user_cpu \<subseteq> set alive - set IGNORANT_USERS"
    by (rule parse_log_allowed [OF run])
next
  assume "aggregate_cpu_usage alive d = Inr total_usage"
  then show "fst ` set total_usage \<subseteq> set alive - set IGNORANT_USERS"
    using aggregate_files_keys [of alive d "listdir d" "[]" total_usage]
    by (simp add: aggregate_cpu_usage_def)
qed

lemmas string_defs = strip_def isspace_def startswith_def split_def IGNORANT_USERS_def
lemmas float_defs = py_float_def floatnumber_def number_def exponent_def lower_def isdigit_def
  decimal_def

lemma py_float_1800: "py_float ''1800'' = Inr (Finite 1800)"
  by (simp add: string_defs float_defs round_double_whole)

lemma py_float_900: "py_float ''900'' = Inr (Finite 900)"
  by (simp add: string_defs float_defs round_double_whole)

lemma py_float_7: "py_float ''7'' = Inr (Finite 7)"
  by (simp add: string_defs float_defs round_double_whole)

lemma py_float_minus_5: "py_float ''-5'' = Inr (Finite (- 5))"
  by (simp add: string_defs float_defs round_double_whole)

lemma parse_log_two_lines:
  "parse_log [''alice'', ''root'']
      (''alice 1800'' @ [newline] @ ''root 7'' @ [newline] @ ''alice 1800'' @ [newline]
        @ ''mallory 5'' @ [newline])
     = Inr [(''alice'', Finite 3600)]"
  by (simp add: parse_log_def readlines_def parse_lines.simps string_defs get_def
      py_float_1800 round_double_whole)

lemma aggregate_three_days:
  "aggregate_cpu_usage [''alice'', ''bob'']
      [(''2024-03-01.log'', File (''Date: 2024-03-01'' @ [newline] @ ''alice 3600'' @ [newline])),
       (''2024-03-02.log'', File (''Date: 2024-03-02'' @ [newline] @ ''alice 1800'' @ [newline]
           @ ''bob 900'' @ [newline])),
       (''old'', Dir),
       (''2024-03-03.log'', File (''Date: 2024-03-03'' @ [newline] @ ''bob 900'' @ [newline]))]
     = Inr [(''alice'', Finite 5400), (''bob'', Finite 1800)]"
  by (simp add: aggregate_cpu_usage_def listdir_def parse_log_def readlines_def parse_lines.simps
      string_defs get_def py_float_1800 py_float_900 py_float_3600 round_double_whole)

theorem parse_log_filters_and_sums_witness:
  "parse_log [''alice'', ''root'']
      (''alice 1800'' @ [newline] @ ''root 7'' @ [newline] @ ''alice 1800'' @ [newline]
        @ ''mallory 5'' @ [newline])
     = Inr [(''alice'', Finite 3600)]
   \<and> {''alice''} \<subseteq> set [''alice'', ''root''] - set IGNORANT_USERS
   \<and> aggregate_cpu_usage [''alice'', ''bob'']
      [(''2024-03-01.log'', File (''Date: 2024-03-01'' @ [newline] @ ''alice 3600'' @ [newline])),
       (''2024-03-02.log'', File (''Date: 2024-03-02'' @ [newline] @ ''alice 1800'' @ [newline]
           @ ''bob 900'' @ [newline])),
       (''old'', Dir),
       (''2024-03-03.log'', File (''Date: 2024-03-03'' @ [newline] @ ''bob 900'' @ [newline]))]
     = Inr [(''alice'', Finite 5400), (''bob'', Finite 1800)]
   \<and> {''alice'', ''bob''} \<subseteq> set [''alice'', ''bob''] - set IGNORANT_USERS"
proof -
  note a = parse_log_two_lines and b = aggregate_three_days
  from parse_log_filters_and_sums [THEN conjunct2, THEN conjunct1, THEN mp, OF a]
  have "fst ` set [(''alice'', Finite 3600)] \<subseteq> set [''alice'', ''root''] - set IGNORANT_USERS"
    by blast
  then have k1: "{''alice''} \<subseteq> set [''alice'', ''root''] - set IGNORANT_USERS"
    by simp
  from parse_log_filters_and_sums [THEN conjunct2, THEN conjunct2, THEN mp, OF b]
  have "fst ` set [(''alice'', Finite 5400), (''bob'', Finite 1800)]
          \<subseteq> set [''alice'', ''bob''] - set IGNORANT_USERS" .
  then have k2: "{''alice'', ''bob''} \<subseteq> set [''alice'', ''bob''] - set IGNORANT_USERS"
    by simp
  show ?thesis by (intro conjI a k1 b k2)
qed

text \<open>
  Two inputs of claim C4. Both users allowed, \<^verbatim>\<open>alice\<close> with a well-formed line and \<^verbatim>\<open>bob\<close>
  with a field that is no number: \<open>parse_log\<close> raises, and no mapping has \<^verbatim>\<open>alice\<close>. A line
  whose second field is \<^verbatim>\<open>nan\<close>, which is no valid CPU time: \<^verbatim>\<open>alice\<close> is a key all the same,
  mapped to a NaN.
\<close>

theorem parse_log_filters_and_sums_counterexample:
  "parse_log [''alice'', ''bob''] (''alice 1800'' @ [newline] @ ''bob oops'') = Inl ValueError
   \<and> parse_log [''alice''] ''alice nan'' = Inr [(''alice'', NaN)]"
proof -
  have "py_float ''oops'' = Inl ValueError"
    by (simp add: string_defs float_defs)
  then have a: "parse_log [''alice'', ''bob''] (''alice 1800'' @ [newline] @ ''bob oops'')
                = Inl ValueError"
    by (simp add: parse_log_def readlines_def parse_lines.simps string_defs get_def
        py_float_1800 round_double_whole)
  have "py_float ''nan'' = Inr NaN"
    by (simp add: string_defs py_float_def lower_def)
  then have b: "parse_log [''alice''] ''alice nan'' = Inr [(''alice'', NaN)]"
    by (simp add: parse_log_def readlines_def parse_lines.simps string_defs get_def)
  from a b show ?thesis by (intro conjI)
qed

section \<open>Names and signs\<close>

lemma init_ALIVE_USERS_length:
  "init_ALIVE_USERS isdir lines alive0 = Inr alive \<Longrightarrow> \<forall>u \<in> set alive0. length u \<le> 8 \<Longrightarrow>
   \<forall>u \<in> set alive. length u \<le> 8"
proof (induction lines arbitrary: alive0)
  case Nil
  then show ?case by simp
next
  case (Cons line lines)
  let ?parts = "split_sep CHR '':'' line"
  from Cons.prems(1) have long: "\<not> length ?parts \<le> 5"
    by (auto simp: Let_def split: if_splits)
  show ?case
  proof (cases "isdir (?parts ! 5) \<and> contains (?parts ! 5) ''home''")
    case True
    with Cons.prems(1) long
    have "init_ALIVE_USERS isdir lines (alive0 @ [take 8 (?parts ! 0)]) = Inr alive"
      by (simp add: Let_def)
    from Cons.IH [OF this] Cons.prems(2) show ?thesis by simp
  next
    case False
    with Cons.prems(1) long have "init_ALIVE_USERS isdir lines alive0 = Inr alive"
      by (auto simp: Let_def)
    from Cons.IH [OF this] Cons.prems(2) show ?thesis by simp
  qed
qed

text \<open>
  Claim C9. \<^verbatim>\<open>ALIVE_USERS\<close> holds names cut to eight characters, and \<open>parse_log\<close> compares
  the whole first field of a line with them: every key of a mapping it returns has at most
  eight characters, and a name of more than eight characters is never a key.
\<close>

theorem parse_log_keys_at_most_8:
  assumes "ALIVE_USERS isdir passwd = Inr alive" and "parse_log alive text = Inr user_cpu"
  shows "(\<forall>user \<in> set alive. length user \<le> 8)
         \<and> (\<forall>user \<in> fst ` set user_cpu. length user \<le> 8)
         \<and> (\<forall>user. 8 < length user \<longrightarrow> user \<notin> fst ` set user_cpu)"
proof -
  from assms(1) have a: "\<forall>user \<in> set alive. length user \<le> 8"
    using init_ALIVE_USERS_length [of isdir "readlines passwd" "[]" alive]
    by (simp add: ALIVE_USERS_def)
  from parse_log_allowed [OF assms(2)] have "fst ` set user_cpu \<subseteq> set alive" by blast
  with a have b: "\<forall>user \<in> fst ` set user_cpu. length user \<le> 8" by blast
  then have "\<forall>user. 8 < length user \<longrightarrow> user \<notin> fst ` set user_cpu" by fastforce
  with a b show ?thesis by blast
qed

lemma ALIVE_USERS_example:
  "ALIVE_USERS (\<lambda>path. path = ''/home/verylongusername'')
      (''root:x:0:0:root:/root:/bin/bash'' @ [newline]
        @ ''verylongusername:x:1000:1000::/home/verylongusername:/bin/bash'' @ [newline])
     = Inr [''verylong'']"
  by (simp add: ALIVE_USERS_def readlines_def split_sep_def startswith_def Let_def)

lemma parse_log_long_name:
  "parse_log [''verylong''] (''verylongusername 5'' @ [newline] @ ''verylong 7'' @ [newline])
     = Inr [(''verylong'', Finite 7)]"
  by (simp add: parse_log_def readlines_def parse_lines.simps string_defs get_def
      py_float_7 round_double_whole)

theorem parse_log_keys_at_most_8_witness:
  "ALIVE_USERS (\<lambda>path. path = ''/home/verylongusername'')
      (''root:x:0:0:root:/root:/bin/bash'' @ [newline]
        @ ''verylongusername:x:1000:1000::/home/verylongusername:/bin/bash'' @ [newline])
     = Inr [''verylong'']
   \<and> parse_log [''verylong''] (''verylongusername 5'' @ [newline] @ ''verylong 7'' @ [newline])
     = Inr [(''verylong'', Finite 7)]
   \<and> ''verylongusername'' \<notin> fst ` set [(''verylong'', Finite 7)]"
proof -
  from parse_log_keys_at_most_8 [OF ALIVE_USERS_example parse_log_long_name]
  have "\<forall>user. 8 < length user \<longrightarrow> user \<notin> fst ` set [(''verylong'', Finite (7::real))]"
    by blast
  then have "''verylongusername'' \<notin> fst ` set [(''verylong'', Finite (7::real))]"
    by simp
  with ALIVE_USERS_example parse_log_long_name show ?thesis by blast
qed

lemma snd_set_update:
  "snd ` set (AList.update k v d) \<subseteq> insert v (snd ` set d)"
  by (induction d) auto

lemma nonneg_usage_iff: "nonneg_usage d \<longleftrightarrow> (\<forall>v \<in> snd ` set d. nonneg v)"
  by (auto simp: nonneg_usage_def list_all_iff)

lemma nonneg_get: "nonneg_usage d \<Longrightarrow> nonneg (get d k)"
  by (auto simp: get_def nonneg_usage_iff split: option.splits dest!: map_of_SomeD
      intro: rev_image_eqI)

lemma nonneg_usage_update:
  "nonneg_usage d \<Longrightarrow> nonneg v \<Longrightarrow> nonneg_usage (AList.update k v d)"
  unfolding nonneg_usage_iff using snd_set_update [of k v d] by blast

lemma parse_lines_nonneg:
  "parse_lines alive lines user_cpu = Inr m \<Longrightarrow> nonneg_usage user_cpu \<Longrightarrow>
   list_all (\<lambda>line. reaches_float alive line \<longrightarrow>
               (case py_float (split line ! 1) of Inr v \<Rightarrow> nonneg v | Inl e \<Rightarrow> True)) lines \<Longrightarrow>
   nonneg_usage m"
proof (induction lines arbitrary: user_cpu)
  case Nil
  then show ?case by simp
next
  case (Cons line lines)
  show ?case
  proof (cases "reaches_float alive line")
    case False
    with Cons show ?thesis by (simp add: parse_lines_skip)
  next
    case True
    let ?k = "split line ! 0"
    from True Cons.prems(1) obtain v where v: "py_float (split line ! 1) = Inr v"
      and rest: "parse_lines alive lines (AList.update ?k (fadd (get user_cpu ?k) v) user_cpu) = Inr m"
      by (auto simp: parse_lines_float split: sum.splits)
    from Cons.prems(3) True v have "nonneg v" by simp
    with Cons.prems(2) have "nonneg_usage (AList.update ?k (fadd (get user_cpu ?k) v) user_cpu)"
      by (intro nonneg_usage_update nonneg_fadd nonneg_get)
    from Cons.IH [OF rest this] Cons.prems(3) show ?thesis by simp
  qed
qed

lemma add_daily_usage_nonneg:
  "nonneg_usage total_usage \<Longrightarrow> nonneg_usage daily_usage \<Longrightarrow>
   nonneg_usage (add_daily_usage total_usage daily_usage)"
proof (induction daily_usage arbitrary: total_usage)
  case Nil
  then show ?case by simp
next
  case (Cons p daily_usage)
  obtain user cpu_time where p: "p = (user, cpu_time)" by (cases p)
  from Cons.prems(2) have "nonneg cpu_time" and rest: "nonneg_usage daily_usage"
    by (simp_all add: p nonneg_usage_def)
  with Cons.prems(1)
  have "nonneg_usage (AList.update user (fadd (get total_usage user) cpu_time) total_usage)"
    by (intro nonneg_usage_update nonneg_fadd nonneg_get)
  from Cons.IH [OF this rest] show ?case by (simp add: p)
qed

lemma aggregate_files_nonneg:
  "aggregate_files alive d names total_usage = Inr result \<Longrightarrow> nonneg_usage total_usage \<Longrightarrow>
   (\<And>name t. map_of d name = Some (File t) \<Longrightarrow> nonneg_fields alive t) \<Longrightarrow>
   nonneg_usage result"
proof (induction names arbitrary: total_usage)
  case Nil
  then show ?case by simp
next
  case (Cons name names)
  show ?case
  proof (cases "map_of d name")
    case None
    with Cons show ?thesis by simp
  next
    case (Some e)
    show ?thesis
    proof (cases e)
      case Dir
      with Some Cons show ?thesis by simp
    next
      case (File t)
      with Some Cons.prems(1) obtain daily where daily: "parse_log alive t = Inr daily"
        and rest: "aggregate_files alive d names (add_daily_usage total_usage daily) = Inr result"
        by (auto split: sum.splits)
      from Some File have "nonneg_fields alive t" by (intro Cons.prems(3)) simp
      with daily have "nonneg_usage daily"
        using parse_lines_nonneg [of alive "readlines t" "[]" daily]
        by (simp add: parse_log_def nonneg_fields_def nonneg_usage_def)
      with Cons.prems(2) have "nonneg_usage (add_daily_usage total_usage daily)"
        by (intro add_daily_usage_nonneg)
      from Cons.IH [OF rest this Cons.prems(3)] show ?thesis by simp
    qed
  qed
qed

text \<open>
  Claim C3, as the code has it. \<^verbatim>\<open>float\<close> accepts a sign, so a value can be negative. The
  values of the mapping \<open>parse_log\<close> returns are non-negative when every second field it
  turns into a float is; the values of the total \<open>aggregate_cpu_usage\<close> returns are
  non-negative when that holds of every file of the directory.
\<close>

theorem usage_nonneg_when_fields_nonneg:
  "(parse_log alive text = Inr user_cpu \<longrightarrow> nonneg_fields alive text \<longrightarrow> nonneg_usage user_cpu)
   \<and> (aggregate_cpu_usage alive d = Inr total_usage \<longrightarrow>
        (\<forall>name t. map_of d name = Some (File t) \<longrightarrow> nonneg_fields alive t) \<longrightarrow>
        nonneg_usage total_usage)"
proof (intro conjI impI)
  assume "parse_log alive text = Inr user_cpu" and "nonneg_fields alive text"
  then show "nonneg_usage user_cpu"
    using parse_lines_nonneg [of alive "readlines text" "[]" user_cpu]
    by (simp add: parse_log_def nonneg_fields_def nonneg_usage_def)
next
  assume "aggregate_cpu_usage alive d = Inr total_usage"
    and "\<forall>name t. map_of d name = Some (File t) \<longrightarrow> nonneg_fields alive t"
  then show "nonneg_usage total_usage"
    using aggregate_files_nonneg [of alive d "listdir d" "[]" total_usage]
    by (simp add: aggregate_cpu_usage_def nonneg_usage_def)
qed

text \<open>An allowed user with a negative second field: the value of the mapping is negative.\<close>

theorem parse_log_negative_counterexample:
  "parse_log [''alice''] ''alice -5'' = Inr [(''alice'', Finite (- 5))]
   \<and> \<not> nonneg_usage [(''alice'', Finite (- 5))]"
  by (simp add: parse_log_def readlines_def parse_lines.simps string_defs get_def
      py_float_minus_5 round_double_whole nonneg_usage_def)

theorem usage_nonneg_when_fields_nonneg_witness:
  "parse_log [''alice'', ''root'']
      (''alice 1800'' @ [newline] @ ''root 7'' @ [newline] @ ''alice 1800'' @ [newline]
        @ ''mallory 5'' @ [newline])
     = Inr [(''alice'', Finite 3600)]
   \<and> nonneg_usage [(''alice'', Finite 3600)]
   \<and> aggregate_cpu_usage [''alice''] [(''2024-03-01.log'', File ''alice 3600''), (''old'', Dir)]
     = Inr [(''alice'', Finite 3600)]"
proof -
  have fields: "nonneg_fields [''alice'', ''root'']
      (''alice 1800'' @ [newline] @ ''root 7'' @ [newline] @ ''alice 1800'' @ [newline]
        @ ''mallory 5'' @ [newline])"
    by (simp add: nonneg_fields_def readlines_def reaches_float_def string_defs py_float_1800)
  have day: "aggregate_cpu_usage [''alice''] [(''2024-03-01.log'', File ''alice 3600''), (''old'', Dir)]
     = Inr [(''alice'', Finite 3600)]"
    by (simp add: aggregate_cpu_usage_def listdir_def parse_log_def readlines_def
        parse_lines.simps string_defs get_def py_float_3600 round_double_whole)
  have "nonneg_fields [''alice''] ''alice 3600''"
    by (simp add: nonneg_fields_def readlines_def reaches_float_def string_defs py_float_3600)
  then have files: "\<forall>name t. map_of [(''2024-03-01.log'', File ''alice 3600''), (''old'', Dir)] name
      = Some (File t) \<longrightarrow> nonneg_fields [''alice''] t"
    by (auto split: if_splits)
  from usage_nonneg_when_fields_nonneg [THEN conjunct1, THEN mp, THEN mp, OF parse_log_two_lines fields]
    usage_nonneg_when_fields_nonneg [THEN conjunct2, THEN mp, THEN mp, OF day files]
  have "nonneg_usage [(''alice'', Finite 3600)]" by simp
  with parse_log_two_lines day show ?thesis by blast
qed

section \<open>Saving and reading back\<close>

lemma universal_newlines_no_cr: "carriage_return \<notin> set (universal_newlines s)"
  by (induction s rule: universal_newlines.induct) auto

lemma universal_newlines_id: "carriage_return \<notin> set s \<Longrightarrow> universal_newlines s = s"
  by (induction s rule: universal_newlines.induct) auto

lemma digit_char_digit: "k < 10 \<Longrightarrow> digit_char k \<in> set ''0123456789''"
  unfolding digit_char_def by (rule nth_mem) simp

lemma str_nat_digits: "set (str_nat n) \<subseteq> set ''0123456789''"
proof (induction n rule: str_nat.induct)
  case (1 n)
  show ?case
  proof (cases "n < 10")
    case True
    then show ?thesis
      using digit_char_digit [of n] by (subst str_nat.simps) simp
  next
    case False
    have "n mod 10 < 10" by simp
    from digit_char_digit [OF this] "1" [OF False] False show ?thesis
      by (subst str_nat.simps) simp
  qed
qed

lemma zero_pad_digits: "set s \<subseteq> set ''0123456789'' \<Longrightarrow> set (zero_pad w s) \<subseteq> set ''0123456789''"
  by (auto simp: zero_pad_def)

lemma isoformat_chars: "set (isoformat t) \<subseteq> set ''0123456789-''"
proof -
  have "set (zero_pad w (str_nat n)) \<subseteq> set ''0123456789''" for w n
    by (rule zero_pad_digits [OF str_nat_digits])
  then have "set (zero_pad w (str_nat n)) \<subseteq> set ''0123456789-''" for w n
    by fastforce
  then show ?thesis by (simp add: isoformat_def)
qed

lemma isoformat_no_break:
  "newline \<notin> set (isoformat t)" "carriage_return \<notin> set (isoformat t)"
  using isoformat_chars [of t] by auto

lemma lines_from_first:
  "newline \<notin> set p \<Longrightarrow> lines_from w (p @ newline # rest) = (w @ p @ [newline]) # lines_from [] rest"
  by (induction p arbitrary: w) auto

lemma split_from_trailing: "split_from a (s @ [newline]) = split_from a s"
  by (induction s arbitrary: a) (auto simp: isspace_def)

lemma split_trailing: "split (w @ [newline]) = split w"
  by (simp add: split_def split_from_trailing)

lemma strip_empty_iff: "strip s = [] \<longleftrightarrow> (\<forall>c \<in> set s. isspace c)"
proof
  assume "strip s = []"
  then have "\<forall>c \<in> set (dropWhile isspace s). isspace c"
    by (simp add: strip_def dropWhile_eq_Nil_conv)
  then have "dropWhile isspace s = []"
    by (metis hd_dropWhile list.set_sel(1))
  then show "\<forall>c \<in> set s. isspace c" by (simp add: dropWhile_eq_Nil_conv)
next
  assume "\<forall>c \<in> set s. isspace c"
  then have d: "dropWhile isspace s = []" by (simp add: dropWhile_eq_Nil_conv)
  show "strip s = []" unfolding strip_def d by simp
qed

lemma startswith_trailing:
  "startswith (w @ [newline]) ''Date:'' = startswith w ''Date:''"
proof (cases "5 \<le> length w")
  case True
  then show ?thesis by (simp add: startswith_def)
next
  case False
  then have "take 5 (w @ [newline]) = w @ [newline]" and "take 5 w = w" by simp_all
  moreover have "w @ [newline] \<noteq> ''Date:''"
  proof
    assume "w @ [newline] = ''Date:''"
    then have "last (w @ [newline]) = last ''Date:''" by (rule arg_cong)
    then show False by simp
  qed
  moreover have "w \<noteq> ''Date:''" using False by auto
  ultimately show ?thesis by (simp add: startswith_def)
qed

lemma reaches_float_trailing:
  "reaches_float alive (w @ [newline]) = reaches_float alive w"
  by (simp add: reaches_float_def strip_empty_iff split_trailing startswith_trailing isspace_def)

lemma parse_lines_trailing:
  "parse_lines alive ((w @ [newline]) # lines) user_cpu = parse_lines alive (w # lines) user_cpu"
proof (cases "reaches_float alive w")
  case True
  then have "reaches_float alive (w @ [newline])" by (simp add: reaches_float_trailing)
  with True show ?thesis
    by (simp add: parse_lines_float split_trailing split: sum.splits)
next
  case False
  then have "\<not> reaches_float alive (w @ [newline])" by (simp add: reaches_float_trailing)
  with False show ?thesis by (simp add: parse_lines_skip)
qed

lemma parse_lines_cong_tail:
  assumes "\<And>acc. parse_lines alive xs acc = parse_lines alive ys acc"
  shows "parse_lines alive (line # xs) user_cpu = parse_lines alive (line # ys) user_cpu"
proof (cases "reaches_float alive line")
  case True
  then show ?thesis by (simp add: parse_lines_float assms split: sum.splits)
next
  case False
  then show ?thesis by (simp add: parse_lines_skip assms)
qed

lemma parse_lines_final_newline:
  "parse_lines alive (lines_from w (s @ [newline])) user_cpu
     = parse_lines alive (lines_from w s) user_cpu"
proof (induction s arbitrary: w user_cpu)
  case Nil
  show ?case
  proof (cases "w = []")
    case True
    have "\<not> reaches_float alive [newline]"
      by (simp add: reaches_float_def strip_empty_iff isspace_def)
    with True show ?thesis by (simp add: parse_lines_skip)
  next
    case False
    then show ?thesis by (simp add: parse_lines_trailing)
  qed
next
  case (Cons c s)
  show ?case
  proof (cases "c = newline")
    case True
    have "parse_lines alive ((w @ [c]) # lines_from [] (s @ [newline])) user_cpu
          = parse_lines alive ((w @ [c]) # lines_from [] s) user_cpu"
      by (rule parse_lines_cong_tail) (rule Cons.IH)
    with True show ?thesis by simp
  next
    case False
    with Cons.IH show ?thesis by simp
  qed
qed

lemma readlines_log_entry:
  assumes "carriage_return \<notin> set out"
  shows "readlines (log_entry today out)
         = (''Date: '' @ isoformat today @ [newline]) # lines_from [] (out @ [newline])"
proof -
  have "carriage_return \<notin> set (log_entry today out)"
    using assms isoformat_no_break(2) [of today] by (simp add: log_entry_def)
  then have "universal_newlines (log_entry today out) = log_entry today out"
    by (rule universal_newlines_id)
  moreover have "newline \<notin> set (''Date: '' @ isoformat today)"
    using isoformat_no_break(1) [of today] by simp
  from lines_from_first [OF this, of "[]" "out @ [newline]"]
  have "lines_from [] (log_entry today out)
        = (''Date: '' @ isoformat today @ [newline]) # lines_from [] (out @ [newline])"
    by (simp add: log_entry_def)
  ultimately show ?thesis by (simp add: readlines_def)
qed

lemma parse_log_log_entry:
  assumes "carriage_return \<notin> set out"
  shows "parse_log alive (log_entry today out) = parse_log alive out"
proof -
  have "\<not> reaches_float alive (''Date: '' @ isoformat today @ [newline])"
    by (simp add: reaches_float_def startswith_def)
  then have "parse_log alive (log_entry today out)
             = parse_lines alive (lines_from [] (out @ [newline])) []"
    by (simp add: parse_log_def readlines_log_entry [OF assms] parse_lines_skip)
  also have "\<dots> = parse_lines alive (lines_from [] out) []"
    by (rule parse_lines_final_newline)
  also have "\<dots> = parse_log alive out"
    by (simp add: parse_log_def readlines_def universal_newlines_id [OF assms])
  finally show ?thesis .
qed

lemma map_of_write_file:
  "write_file name t d = Inr d' \<Longrightarrow> map_of d' name = Some (File t)"
  by (auto simp: write_file_def AList.update_conv' split: option.splits entry.splits)

text \<open>
  Claim C10. The output \<^verbatim>\<open>subprocess.run\<close> hands over in text mode has no carriage return.
  The file \<open>save_logs\<close> writes for it reads back as the line \<^verbatim>\<open>Date: <today>\<close> followed by the
  lines of the output and a final newline; \<open>parse_log\<close> passes over the first line, so parsing
  the file gives what parsing the output alone gives: the same mapping, or the same
  exception.
\<close>

theorem save_logs_round_trip:
  "readlines (log_entry today (stdout (run_text code raw)))
     = (''Date: '' @ isoformat today @ [newline])
         # lines_from [] (stdout (run_text code raw) @ [newline])
   \<and> startswith (''Date: '' @ isoformat today @ [newline]) ''Date:''
   \<and> \<not> reaches_float alive (''Date: '' @ isoformat today @ [newline])
   \<and> \<not> reaches_float alive [newline]
   \<and> parse_log alive (log_entry today (stdout (run_text code raw)))
       = parse_log alive (stdout (run_text code raw))
   \<and> (save_logs today (Inr (run_text code raw)) d = Inr d' \<longrightarrow>
        (\<exists>t. map_of d' (isoformat today @ ''.log'') = Some (File t)
             \<and> parse_log alive t = parse_log alive (stdout (run_text code raw))))"
proof -
  let ?out = "stdout (run_text code raw)"
  have cr: "carriage_return \<notin> set ?out"
    by (simp add: run_text_def universal_newlines_no_cr)
  have a: "readlines (log_entry today ?out)
           = (''Date: '' @ isoformat today @ [newline]) # lines_from [] (?out @ [newline])"
    by (rule readlines_log_entry [OF cr])
  have b: "startswith (''Date: '' @ isoformat today @ [newline]) ''Date:''"
    by (simp add: startswith_def)
  then have c: "\<not> reaches_float alive (''Date: '' @ isoformat today @ [newline])"
    by (simp add: reaches_float_def)
  have e: "\<not> reaches_float alive [newline]"
    by (simp add: reaches_float_def strip_empty_iff isspace_def)
  have f: "parse_log alive (log_entry today ?out) = parse_log alive ?out"
    by (rule parse_log_log_entry [OF cr])
  have g: "save_logs today (Inr (run_text code raw)) d = Inr d' \<longrightarrow>
        (\<exists>t. map_of d' (isoformat today @ ''.log'') = Some (File t)
             \<and> parse_log alive t = parse_log alive ?out)"
  proof
    assume "save_logs today (Inr (run_text code raw)) d = Inr d'"
    then have "write_file (isoformat today @ ''.log'') (log_entry today ?out) d = Inr d'"
      by (simp add: save_logs_def)
    from map_of_write_file [OF this] f
    show "\<exists>t. map_of d' (isoformat today @ ''.log'') = Some (File t)
             \<and> parse_log alive t = parse_log alive ?out"
      by blast
  qed
  from a b c e f g show ?thesis by blast
qed

lemma isoformat_example: "isoformat \<lparr>year = 2024, month = 3, day = 5\<rparr> = ''2024-03-05''"
  by (simp add: isoformat_def zero_pad_def str_nat.simps digit_char_def)

lemma save_logs_example:
  "save_logs \<lparr>year = 2024, month = 3, day = 5\<rparr>
      (Inr (run_text 0 (''alice 3600'' @ [carriage_return, newline]))) []
   = Inr [(''2024-03-05.log'',
           File (''Date: 2024-03-05'' @ [newline] @ ''alice 3600'' @ [newline, newline]))]"
  by (simp add: save_logs_def run_text_def write_file_def log_entry_def isoformat_example)

lemma parse_log_example:
  "parse_log [''alice''] (stdout (run_text 0 (''alice 3600'' @ [carriage_return, newline])))
   = Inr [(''alice'', Finite 3600)]"
  by (simp add: run_text_def parse_log_def readlines_def parse_lines.simps string_defs get_def
      py_float_3600 round_double_whole)

theorem save_logs_round_trip_witness:
  "save_logs \<lparr>year = 2024, month = 3, day = 5\<rparr>
      (Inr (run_text 0 (''alice 3600'' @ [carriage_return, newline]))) []
   = Inr [(''2024-03-05.log'',
           File (''Date: 2024-03-05'' @ [newline] @ ''alice 3600'' @ [newline, newline]))]
   \<and> parse_log [''alice''] (''Date: 2024-03-05'' @ [newline] @ ''alice 3600'' @ [newline, newline])
     = Inr [(''alice'', Finite 3600)]
   \<and> parse_log [''alice''] (stdout (run_text 0 (''alice 3600'' @ [carriage_return, newline])))
     = Inr [(''alice'', Finite 3600)]"
proof -
  have "log_entry \<lparr>year = 2024, month = 3, day = 5\<rparr>
          (stdout (run_text 0 (''alice 3600'' @ [carriage_return, newline])))
        = ''Date: 2024-03-05'' @ [newline] @ ''alice 3600'' @ [newline, newline]"
    by (simp add: log_entry_def run_text_def isoformat_example)
  with save_logs_round_trip
    [of "\<lparr>year = 2024, month = 3, day = 5\<rparr>" 0 "''alice 3600'' @ [carriage_return, newline]"
      "[''alice'']", THEN conjunct2, THEN conjunct2, THEN conjunct2, THEN conjunct2, THEN conjunct1]
  have "parse_log [''alice''] (''Date: 2024-03-05'' @ [newline] @ ''alice 3600'' @ [newline, newline])
        = parse_log [''alice''] (stdout (run_text 0 (''alice 3600'' @ [carriage_return, newline])))"
    by simp
  with save_logs_example parse_log_example show ?thesis by simp
qed

text \<open>
  Claim C8, as the code has it. The return code of the command is never read. \<open>save_logs\<close>
  fails, and writes nothing, in two cases only: \<^verbatim>\<open>subprocess.run\<close> raises (the command cannot
  be started), and the exception is the one it raised; or the file of the day cannot be
  opened for writing because a directory has its name. In every other case, whatever the
  return code, it returns normally and the file of the day holds the \<^verbatim>\<open>Date:\<close> line and the
  output.
\<close>

theorem save_logs_ignores_returncode:
  "save_logs today (Inl e) d = Inl e
   \<and> save_logs today (Inr (CompletedProcess code out)) d
       = (if map_of d (isoformat today @ ''.log'') = Some Dir then Inl IsADirectoryError
          else Inr (AList.update (isoformat today @ ''.log'') (File (log_entry today out)) d))"
  by (auto simp: save_logs_def write_file_def split: option.splits entry.splits)

theorem save_logs_ignores_returncode_witness:
  "save_logs \<lparr>year = 2024, month = 3, day = 5\<rparr> (Inl OSError)
      [(''2024-03-04.log'', File ''x'')] = Inl OSError
   \<and> save_logs \<lparr>year = 2024, month = 3, day = 5\<rparr>
        (Inr (CompletedProcess 0 (''alice 3600'' @ [newline]))) [(''2024-03-04.log'', File ''x'')]
     = Inr [(''2024-03-04.log'', File ''x''),
            (''2024-03-05.log'',
             File (''Date: 2024-03-05'' @ [newline] @ ''alice 3600'' @ [newline, newline]))]
   \<and> save_logs \<lparr>year = 2024, month = 3, day = 5\<rparr>
        (Inr (CompletedProcess 0 (''alice 3600'' @ [newline]))) [(''2024-03-05.log'', Dir)]
     = Inl IsADirectoryError"
proof -
  note a = save_logs_ignores_returncode
    [of "\<lparr>year = 2024, month = 3, day = 5\<rparr>" OSError "[(''2024-03-04.log'', File ''x'')]" 0
      "''alice 3600'' @ [newline]"]
  note b = save_logs_ignores_returncode
    [of "\<lparr>year = 2024, month = 3, day = 5\<rparr>" OSError "[(''2024-03-05.log'', Dir)]" 0
      "''alice 3600'' @ [newline]", THEN conjunct2]
  from a b show ?thesis by (simp add: isoformat_example log_entry_def)
qed

text \<open>The command completes with return code \<open>1\<close> and no output: \<open>save_logs\<close> returns
  normally and the directory holds a snapshot for the day.\<close>

theorem save_logs_nonzero_exit_counterexample:
  "save_logs \<lparr>year = 2024, month = 3, day = 5\<rparr> (Inr (CompletedProcess 1 [])) []
   = Inr [(''2024-03-05.log'', File (''Date: 2024-03-05'' @ [newline, newline]))]"
  by (simp add: save_logs_def write_file_def log_entry_def isoformat_example)

section \<open>Aggregation\<close>

lemma add_daily_usage_append:
  "add_daily_usage total_usage (xs @ ys) = add_daily_usage (add_daily_usage total_usage xs) ys"
  by (induction xs arbitrary: total_usage) auto

lemma aggregate_concat: "foldl add_daily_usage total_usage records
    = add_daily_usage total_usage (concat records)"
  by (induction records arbitrary: total_usage) (auto simp: add_daily_usage_append)

lemma get_add_daily_usage:
  "get (add_daily_usage total_usage entries) user
     = foldl fadd (get total_usage user) (values_of user entries)"
  by (induction entries arbitrary: total_usage) (auto simp: values_of_def get_update)

lemma map_of_get:
  "map_of d user = (if user \<in> fst ` set d then Some (get d user) else None)"
  by (auto simp: get_def map_of_eq_None_iff split: option.splits)

lemma aggregate_files_records:
  "aggregate_files alive d names total_usage = Inr result \<Longrightarrow>
   result = foldl add_daily_usage total_usage (daily_records alive d names)"
proof (induction names arbitrary: total_usage)
  case Nil
  then show ?case by simp
next
  case (Cons name names)
  show ?case
  proof (cases "map_of d name")
    case None
    with Cons show ?thesis by simp
  next
    case (Some e)
    show ?thesis
    proof (cases e)
      case Dir
      with Some Cons show ?thesis by simp
    next
      case (File t)
      with Some Cons.prems obtain daily where daily: "parse_log alive t = Inr daily"
        and rest: "aggregate_files alive d names (add_daily_usage total_usage daily) = Inr result"
        by (auto split: sum.splits)
      from Cons.IH [OF rest] Some File daily show ?thesis by simp
    qed
  qed
qed

lemma whole_sum:
  "list_all whole vs \<Longrightarrow> a \<in> \<int> \<Longrightarrow> 0 \<le> a \<Longrightarrow> a + sum_list (map seconds_of vs) < 2 ^ 53 \<Longrightarrow>
   foldl fadd (Finite a) vs = Finite (a + sum_list (map seconds_of vs))"
proof (induction vs arbitrary: a)
  case Nil
  then show ?case by simp
next
  case (Cons v vs)
  from Cons.prems(1) have wv: "whole v" and rest: "list_all whole vs" by simp_all
  from wv obtain x where v: "v = Finite x" by (cases v) (simp_all add: whole_def)
  from wv have x: "0 \<le> x" "of_int \<lfloor>x\<rfloor> = x" by (simp_all add: whole_def v)
  from x(2) have xi: "x \<in> \<int>" by (metis Ints_of_int)
  have nonneg: "0 \<le> sum_list (map seconds_of vs)"
    using rest by (induction vs) (auto simp: whole_def seconds_of_def split: pyfloat.splits)
  have ax: "a + x \<in> \<int>" using Cons.prems(2) xi by (rule Ints_add)
  have sv: "seconds_of v = x" by (simp add: v seconds_of_def)
  from Cons.prems(4) have tot: "a + x + sum_list (map seconds_of vs) < 2 ^ 53"
    by (simp add: sv add.assoc)
  have "\<bar>a + x\<bar> < 2 ^ 53"
    using Cons.prems(3) x(1) nonneg tot by linarith
  then have step: "fadd (Finite a) v = Finite (a + x)"
    using ax by (simp add: v round_double_whole)
  have "0 \<le> a + x" using Cons.prems(3) x(1) by simp
  from Cons.IH [OF rest ax this tot]
  have "foldl fadd (Finite (a + x)) vs = Finite (a + x + sum_list (map seconds_of vs))" .
  then show ?case by (simp add: step sv add.assoc)
qed

lemma values_of_whole:
  "list_all (\<lambda>(u, v). whole v) entries \<Longrightarrow> list_all whole (values_of user entries)"
  by (induction entries) (auto simp: values_of_def)

lemma values_of_sum_le:
  "list_all (\<lambda>(u, v). whole v) entries \<Longrightarrow>
   sum_list (map seconds_of (values_of user entries)) \<le> sum_list (map (\<lambda>(u, v). seconds_of v) entries)"
  by (induction entries) (auto simp: values_of_def whole_def seconds_of_def split: pyfloat.splits)

lemma values_of_sum_mset:
  "mset xs = mset ys \<Longrightarrow>
   sum_list (map seconds_of (values_of user xs)) = sum_list (map seconds_of (values_of user ys))"
proof -
  assume "mset xs = mset ys"
  then have "mset (map seconds_of (values_of user xs)) = mset (map seconds_of (values_of user ys))"
    unfolding values_of_def by (metis mset_filter mset_map)
  then show ?thesis by (metis sum_mset_sum_list)
qed

lemma mset_concat_perm: "mset xss = mset yss \<Longrightarrow> mset (concat xss) = mset (concat yss)"
  unfolding mset_concat by (metis mset_map sum_mset_sum_list)

lemma round_double_at:
  "x \<noteq> 0 \<Longrightarrow> exponent_of x = e \<Longrightarrow> round_half_even (x / 2 powi e) = m \<Longrightarrow>
   \<bar>real_of_int m * 2 powi e\<bar> < 2 powi 1024 \<Longrightarrow>
   round_double x = Finite (of_int m * 2 powi e)"
  by (simp add: round_double_def Let_def)

lemma exponent_of_tenth: "exponent_of (1 / 10) = - 56" by code_simp
lemma exponent_of_fifth: "exponent_of (2 / 10) = - 55" by code_simp
lemma exponent_of_three_tenths: "exponent_of (3 / 10) = - 54" by code_simp
lemma exponent_of_float_tenth: "exponent_of (3602879701896397 / 36028797018963968) = - 56" by code_simp
lemma exponent_of_float_three_tenths: "exponent_of (5404319552844595 / 18014398509481984) = - 54" by code_simp
lemma exponent_of_sum_12: "exponent_of (10808639105689191 / 36028797018963968) = - 54" by code_simp
lemma exponent_of_sum_123: "exponent_of (10808639105689191 / 18014398509481984) = - 53" by code_simp
lemma exponent_of_half: "exponent_of (1 / 2) = - 53" by code_simp
lemma exponent_of_sum_321: "exponent_of (21617278211378381 / 36028797018963968) = - 53" by code_simp

lemma round_double_tenth: "round_double (1 / 10) = Finite (3602879701896397 / 36028797018963968)"
  by (subst round_double_at [OF _ exponent_of_tenth]) (simp_all add: round_half_even_def)
lemma round_double_fifth: "round_double (2 / 10) = Finite (3602879701896397 / 18014398509481984)"
  by (subst round_double_at [OF _ exponent_of_fifth]) (simp_all add: round_half_even_def)
lemma round_double_three_tenths: "round_double (3 / 10) = Finite (5404319552844595 / 18014398509481984)"
  by (subst round_double_at [OF _ exponent_of_three_tenths]) (simp_all add: round_half_even_def)
lemma round_double_float_tenth: "round_double (3602879701896397 / 36028797018963968)
    = Finite (3602879701896397 / 36028797018963968)"
  by (subst round_double_at [OF _ exponent_of_float_tenth]) (simp_all add: round_half_even_def)
lemma exponent_of_float_fifth: "exponent_of (3602879701896397 / 18014398509481984) = - 55"
  by code_simp
lemma round_double_float_fifth: "round_double (3602879701896397 / 18014398509481984)
    = Finite (3602879701896397 / 18014398509481984)"
  by (subst round_double_at [OF _ exponent_of_float_fifth]) (simp_all add: round_half_even_def)
lemma round_double_float_three_tenths: "round_double (5404319552844595 / 18014398509481984)
    = Finite (5404319552844595 / 18014398509481984)"
  by (subst round_double_at [OF _ exponent_of_float_three_tenths]) (simp_all add: round_half_even_def)
lemma round_double_sum_12: "round_double (10808639105689191 / 36028797018963968)
    = Finite (5404319552844596 / 18014398509481984)"
  by (subst round_double_at [OF _ exponent_of_sum_12]) (simp_all add: round_half_even_def)
lemma round_double_sum_123: "round_double (10808639105689191 / 18014398509481984)
    = Finite (5404319552844596 / 9007199254740992)"
  by (subst round_double_at [OF _ exponent_of_sum_123]) (simp_all add: round_half_even_def)
lemma round_double_half: "round_double (1 / 2) = Finite (1 / 2)"
  by (subst round_double_at [OF _ exponent_of_half]) (simp_all add: round_half_even_def)
lemma round_double_sum_321: "round_double (21617278211378381 / 36028797018963968)
    = Finite (5404319552844595 / 9007199254740992)"
  by (subst round_double_at [OF _ exponent_of_sum_321]) (simp_all add: round_half_even_def)

lemma py_float_tenth: "py_float ''0.1'' = Inr (Finite (3602879701896397 / 36028797018963968))"
  by (simp add: string_defs float_defs round_double_tenth)

lemma py_float_fifth: "py_float ''0.2'' = Inr (Finite (3602879701896397 / 18014398509481984))"
  using round_double_fifth by (simp add: string_defs float_defs)

lemma py_float_three_tenths:
  "py_float ''0.3'' = Inr (Finite (5404319552844595 / 18014398509481984))"
  by (simp add: string_defs float_defs round_double_three_tenths)

lemma aggregate_get:
  "get (aggregate records) user = foldl fadd (Finite 0) (values_of user (concat records))"
proof -
  have "get [] user = Finite 0" by (simp add: get_def)
  then show ?thesis by (simp add: aggregate_def aggregate_concat get_add_daily_usage)
qed

lemma aggregate_keys: "fst ` set (aggregate records) = fst ` set (concat records)"
  by (simp add: aggregate_def aggregate_concat keys_add_daily_usage)

lemma whole_seconds_perm:
  assumes "mset records' = mset records" and "whole_seconds records"
  shows "whole_seconds records'"
proof -
  have m: "mset (concat records') = mset (concat records)"
    by (rule mset_concat_perm [OF assms(1)])
  then have "set (concat records') = set (concat records)" by (rule mset_eq_setD)
  moreover have "sum_list (map (\<lambda>(u, v). seconds_of v) (concat records'))
               = sum_list (map (\<lambda>(u, v). seconds_of v) (concat records))"
    using m by (metis mset_map sum_mset_sum_list)
  ultimately show ?thesis using assms(2) by (simp add: whole_seconds_def list_all_iff)
qed

lemma aggregate_whole:
  assumes "whole_seconds records"
  shows "get (aggregate records) user
         = Finite (sum_list (map seconds_of (values_of user (concat records))))"
proof -
  let ?es = "concat records"
  from assms have w: "list_all (\<lambda>(u, v). whole v) ?es"
    and b: "sum_list (map (\<lambda>(u, v). seconds_of v) ?es) < 2 ^ 53"
    by (simp_all add: whole_seconds_def)
  have "0 + sum_list (map seconds_of (values_of user ?es)) < 2 ^ 53"
    using values_of_sum_le [OF w, of user] b by simp
  from whole_sum [OF values_of_whole [OF w] Ints_0 order_refl this]
  show ?thesis by (simp add: aggregate_get)
qed

lemma parse_log_error: "parse_log alive t = Inl e \<Longrightarrow> e = ValueError"
  unfolding parse_log_def by (rule parse_lines_error)

lemma aggregate_files_total:
  "aggregate_files alive d names total_usage
     = (if list_all (parses alive d) names
        then Inr (foldl add_daily_usage total_usage (daily_records alive d names))
        else Inl ValueError)"
proof (induction names arbitrary: total_usage)
  case Nil
  show ?case by simp
next
  case (Cons name names)
  show ?case
  proof (cases "map_of d name")
    case None
    with Cons.IH show ?thesis by (simp add: parses_def)
  next
    case (Some entry)
    show ?thesis
    proof (cases entry)
      case Dir
      with Some Cons.IH show ?thesis by (simp add: parses_def)
    next
      case (File t)
      show ?thesis
      proof (cases "parse_log alive t")
        case (Inl e)
        with parse_log_error [OF Inl] Some File show ?thesis by (simp add: parses_def)
      next
        case (Inr daily_usage)
        with Some File Cons.IH show ?thesis by (simp add: parses_def)
      qed
    qed
  qed
qed

lemma daily_records_append:
  "daily_records alive d (xs @ ys) = daily_records alive d xs @ daily_records alive d ys"
  by (induction xs) (auto split: option.splits entry.splits sum.splits)

lemma daily_records_concat:
  "daily_records alive d names = concat (map (\<lambda>name. daily_records alive d [name]) names)"
proof (induction names)
  case Nil
  show ?case by simp
next
  case (Cons name names)
  have "daily_records alive d (name # names)
        = daily_records alive d [name] @ daily_records alive d names"
    using daily_records_append [of alive d "[name]" names] by simp
  with Cons show ?case by simp
qed

lemma daily_records_perm:
  assumes "mset names' = mset names"
  shows "mset (daily_records alive d names') = mset (daily_records alive d names)"
proof -
  from assms have "mset (map (\<lambda>name. daily_records alive d [name]) names')
                 = mset (map (\<lambda>name. daily_records alive d [name]) names)"
    by (metis mset_map)
  from mset_concat_perm [OF this] show ?thesis
    by (simp only: daily_records_concat [symmetric])
qed

text \<open>
  Claim C5, as the code has it. \<open>aggregate_cpu_usage\<close> raises exactly when \<open>parse_log\<close> raises
  on a regular file of the listing; otherwise it returns the aggregate of the records of
  the files, taken in the order of the listing, and another order of the listing gives the
  same records in another order. The aggregate of no record is the empty mapping. The users
  of the aggregate are the users of the records, in any order of the records, and the value
  of a user is the float sum, from \<open>0\<close> and in the order the records are read, of the user's
  values. A float sum is rounded at every step, so another order can give another value;
  for records of whole seconds whose grand total is below \<open>2 ^ 53\<close> nothing is rounded and
  every permutation gives the same mapping.
\<close>

theorem aggregate_order:
  "aggregate [] = []
   \<and> aggregate_cpu_usage alive d
       = (if list_all (parses alive d) (listdir d)
          then Inr (aggregate (daily_records alive d (listdir d))) else Inl ValueError)
   \<and> (mset names' = mset names \<longrightarrow>
        mset (daily_records alive d names') = mset (daily_records alive d names))
   \<and> map_of (aggregate records) user
       = (if user \<in> fst ` set (concat records)
          then Some (foldl fadd (Finite 0) (values_of user (concat records))) else None)
   \<and> (mset records' = mset records \<longrightarrow>
        fst ` set (aggregate records') = fst ` set (aggregate records))
   \<and> (mset records' = mset records \<longrightarrow> whole_seconds records \<longrightarrow>
        map_of (aggregate records') = map_of (aggregate records))"
proof (intro conjI impI)
  show "aggregate [] = []" by (simp add: aggregate_def)
next
  show "aggregate_cpu_usage alive d
       = (if list_all (parses alive d) (listdir d)
          then Inr (aggregate (daily_records alive d (listdir d))) else Inl ValueError)"
    by (simp only: aggregate_cpu_usage_def aggregate_def aggregate_files_total)
next
  assume "mset names' = mset names"
  then show "mset (daily_records alive d names') = mset (daily_records alive d names)"
    by (rule daily_records_perm)
next
  show "map_of (aggregate records) user
       = (if user \<in> fst ` set (concat records)
          then Some (foldl fadd (Finite 0) (values_of user (concat records))) else None)"
    by (simp only: map_of_get [of "aggregate records"] aggregate_keys aggregate_get)
next
  assume "mset records' = mset records"
  then have "set (concat records') = set (concat records)"
    by (intro mset_eq_setD mset_concat_perm)
  then show "fst ` set (aggregate records') = fst ` set (aggregate records)"
    by (simp only: aggregate_keys)
next
  assume p: "mset records' = mset records" and w: "whole_seconds records"
  have m: "mset (concat records') = mset (concat records)"
    by (rule mset_concat_perm [OF p])
  have keys: "fst ` set (aggregate records') = fst ` set (aggregate records)"
    using mset_eq_setD [OF m] by (simp only: aggregate_keys)
  have "get (aggregate records') user = get (aggregate records) user" for user
    by (simp only: aggregate_whole [OF w] aggregate_whole [OF whole_seconds_perm [OF p w]]
        values_of_sum_mset [OF m])
  then show "map_of (aggregate records') = map_of (aggregate records)"
    by (intro ext) (simp only: map_of_get [of "aggregate records'"] map_of_get [of "aggregate records"] keys)
qed

text \<open>The three records \<^verbatim>\<open>{alice: 0.1}\<close>, \<^verbatim>\<open>{alice: 0.2}\<close>, \<^verbatim>\<open>{alice: 0.3}\<close>, as \<open>parse_log\<close>
  returns them, aggregated in this order and in the reverse order: \<open>0.6000000000000001\<close> and
  \<open>0.6\<close>.\<close>

theorem aggregate_order_counterexample:
  "parse_log [''alice''] ''alice 0.1''
     = Inr [(''alice'', Finite (3602879701896397 / 36028797018963968))]
   \<and> parse_log [''alice''] ''alice 0.2''
     = Inr [(''alice'', Finite (3602879701896397 / 18014398509481984))]
   \<and> parse_log [''alice''] ''alice 0.3''
     = Inr [(''alice'', Finite (5404319552844595 / 18014398509481984))]
   \<and> aggregate [[(''alice'', Finite (3602879701896397 / 36028797018963968))],
                 [(''alice'', Finite (3602879701896397 / 18014398509481984))],
                 [(''alice'', Finite (5404319552844595 / 18014398509481984))]]
     = [(''alice'', Finite (5404319552844596 / 9007199254740992))]
   \<and> aggregate [[(''alice'', Finite (5404319552844595 / 18014398509481984))],
                 [(''alice'', Finite (3602879701896397 / 18014398509481984))],
                 [(''alice'', Finite (3602879701896397 / 36028797018963968))]]
     = [(''alice'', Finite (5404319552844595 / 9007199254740992))]"
proof -
  have a: "parse_log [''alice''] ''alice 0.1''
     = Inr [(''alice'', Finite (3602879701896397 / 36028797018963968))]"
    by (simp add: parse_log_def readlines_def parse_lines.simps string_defs get_def
        py_float_tenth round_double_float_tenth)
  have b: "parse_log [''alice''] ''alice 0.2''
     = Inr [(''alice'', Finite (3602879701896397 / 18014398509481984))]"
    by (simp add: parse_log_def readlines_def parse_lines.simps string_defs get_def
        py_float_fifth round_double_float_fifth)
  have c: "parse_log [''alice''] ''alice 0.3''
     = Inr [(''alice'', Finite (5404319552844595 / 18014398509481984))]"
    by (simp add: parse_log_def readlines_def parse_lines.simps string_defs get_def
        py_float_three_tenths round_double_float_three_tenths)
  have s1: "(3602879701896397 / 36028797018963968 + 3602879701896397 / 18014398509481984 :: real)
            = 10808639105689191 / 36028797018963968" by simp
  have s2: "(5404319552844596 / 18014398509481984 + 5404319552844595 / 18014398509481984 :: real)
            = 10808639105689191 / 18014398509481984" by simp
  have s3: "(5404319552844595 / 18014398509481984 + 3602879701896397 / 18014398509481984 :: real)
            = 1 / 2" by simp
  have s4: "(1 / 2 + 3602879701896397 / 36028797018963968 :: real)
            = 21617278211378381 / 36028797018963968" by simp
  have f1: "fadd (Finite 0) (Finite (3602879701896397 / 36028797018963968))
            = Finite (3602879701896397 / 36028797018963968)"
    by (simp only: fadd.simps add_0 round_double_float_tenth)
  have f2: "fadd (Finite (3602879701896397 / 36028797018963968))
              (Finite (3602879701896397 / 18014398509481984))
            = Finite (5404319552844596 / 18014398509481984)"
    by (simp only: fadd.simps s1 round_double_sum_12)
  have f3: "fadd (Finite (5404319552844596 / 18014398509481984))
              (Finite (5404319552844595 / 18014398509481984))
            = Finite (5404319552844596 / 9007199254740992)"
    by (simp only: fadd.simps s2 round_double_sum_123)
  have g1: "fadd (Finite 0) (Finite (5404319552844595 / 18014398509481984))
            = Finite (5404319552844595 / 18014398509481984)"
    by (simp only: fadd.simps add_0 round_double_float_three_tenths)
  have g2: "fadd (Finite (5404319552844595 / 18014398509481984))
              (Finite (3602879701896397 / 18014398509481984))
            = Finite (1 / 2)"
    by (simp only: fadd.simps s3 round_double_half)
  have g3: "fadd (Finite (1 / 2)) (Finite (3602879701896397 / 36028797018963968))
            = Finite (5404319552844595 / 9007199254740992)"
    by (simp only: fadd.simps s4 round_double_sum_321)
  have d: "aggregate [[(''alice'', Finite (3602879701896397 / 36028797018963968))],
                 [(''alice'', Finite (3602879701896397 / 18014398509481984))],
                 [(''alice'', Finite (5404319552844595 / 18014398509481984))]]
     = [(''alice'', Finite (5404319552844596 / 9007199254740992))]"
    by (simp only: aggregate_def foldl.simps add_daily_usage.simps get_def map_of.simps
        AList.update.simps fst_conv snd_conv fun_upd_same option.case f1 f2 f3 if_True refl)
  have e: "aggregate [[(''alice'', Finite (5404319552844595 / 18014398509481984))],
                 [(''alice'', Finite (3602879701896397 / 18014398509481984))],
                 [(''alice'', Finite (3602879701896397 / 36028797018963968))]]
     = [(''alice'', Finite (5404319552844595 / 9007199254740992))]"
    by (simp only: aggregate_def foldl.simps add_daily_usage.simps get_def map_of.simps
        AList.update.simps fst_conv snd_conv fun_upd_same option.case g1 g2 g3 if_True refl)
  from a b c d e show ?thesis by (intro conjI)
qed

theorem aggregate_order_witness:
  "whole_seconds [[(''alice'', Finite 3600)], [(''alice'', Finite 1800), (''bob'', Finite 900)],
       [(''bob'', Finite 900)]]
   \<and> mset [[(''bob'', Finite 900)], [(''alice'', Finite 3600)],
            [(''alice'', Finite 1800), (''bob'', Finite 900)]]
     = mset [[(''alice'', Finite 3600)], [(''alice'', Finite 1800), (''bob'', Finite 900)],
            [(''bob'', Finite 900)]]
   \<and> aggregate [[(''alice'', Finite 3600)], [(''alice'', Finite 1800), (''bob'', Finite 900)],
         [(''bob'', Finite 900)]]
     = [(''alice'', Finite 5400), (''bob'', Finite 1800)]
   \<and> aggregate [[(''bob'', Finite 900)], [(''alice'', Finite 3600)],
         [(''alice'', Finite 1800), (''bob'', Finite 900)]]
     = [(''bob'', Finite 1800), (''alice'', Finite 5400)]
   \<and> map_of (aggregate [[(''bob'', Finite 900)], [(''alice'', Finite 3600)],
         [(''alice'', Finite 1800), (''bob'', Finite 900)]])
     = map_of (aggregate [[(''alice'', Finite 3600)], [(''alice'', Finite 1800), (''bob'', Finite 900)],
         [(''bob'', Finite 900)]])
   \<and> aggregate_cpu_usage [''alice'', ''bob'']
      [(''2024-03-01.log'', File (''Date: 2024-03-01'' @ [newline] @ ''alice 3600'' @ [newline])),
       (''2024-03-02.log'', File (''Date: 2024-03-02'' @ [newline] @ ''alice 1800'' @ [newline]
           @ ''bob 900'' @ [newline])),
       (''old'', Dir),
       (''2024-03-03.log'', File (''Date: 2024-03-03'' @ [newline] @ ''bob 900'' @ [newline]))]
     = Inr [(''alice'', Finite 5400), (''bob'', Finite 1800)]
   \<and> aggregate (daily_records [''alice'', ''bob'']
      [(''2024-03-01.log'', File (''Date: 2024-03-01'' @ [newline] @ ''alice 3600'' @ [newline])),
       (''2024-03-02.log'', File (''Date: 2024-03-02'' @ [newline] @ ''alice 1800'' @ [newline]
           @ ''bob 900'' @ [newline])),
       (''old'', Dir),
       (''2024-03-03.log'', File (''Date: 2024-03-03'' @ [newline] @ ''bob 900'' @ [newline]))]
      [''2024-03-01.log'', ''2024-03-02.log'', ''old'', ''2024-03-03.log''])
     = [(''alice'', Finite 5400), (''bob'', Finite 1800)]
   \<and> aggregate_cpu_usage [''alice''] [(''2024-03-01.log'', File ''alice 3600''),
        (''2024-03-02.log'', File ''alice x'')]
     = Inl ValueError
   \<and> mset (daily_records [''alice''] [(''2024-03-01.log'', File ''alice 3600''),
        (''2024-03-02.log'', File ''alice x'')] [''2024-03-02.log'', ''2024-03-01.log''])
     = mset (daily_records [''alice''] [(''2024-03-01.log'', File ''alice 3600''),
        (''2024-03-02.log'', File ''alice x'')] [''2024-03-01.log'', ''2024-03-02.log''])"
  (is "whole_seconds ?r \<and> mset ?r' = mset ?r \<and> aggregate ?r = ?t \<and> aggregate ?r' = ?t'
       \<and> _ \<and> aggregate_cpu_usage ?A ?D = _ \<and> _ \<and> aggregate_cpu_usage ?B ?E = _ \<and> _")
proof -
  have w: "whole_seconds ?r"
    by (simp add: whole_seconds_def whole_def seconds_of_def)
  have p: "mset ?r' = mset ?r"
    by (simp add: add_mset_commute)
  have a: "aggregate ?r = ?t"
    by (simp add: aggregate_def get_def round_double_whole)
  have b: "aggregate ?r' = ?t'"
    by (simp add: aggregate_def get_def round_double_whole)
  from aggregate_order [where records = ?r and records' = ?r', THEN conjunct2, THEN conjunct2,
      THEN conjunct2, THEN conjunct2, THEN conjunct2, THEN mp, THEN mp, OF p w]
  have c: "map_of (aggregate ?r') = map_of (aggregate ?r)" .
  note run = aggregate_order [where alive = ?A and d = ?D, THEN conjunct2, THEN conjunct1]
  have names: "listdir ?D = [''2024-03-01.log'', ''2024-03-02.log'', ''old'', ''2024-03-03.log'']"
    by (simp add: listdir_def)
  from run aggregate_three_days
  have "aggregate (daily_records ?A ?D (listdir ?D)) = ?t"
    by (simp split: if_splits)
  then have e: "aggregate (daily_records ?A ?D
      [''2024-03-01.log'', ''2024-03-02.log'', ''old'', ''2024-03-03.log'']) = ?t"
    by (simp only: names)
  have "py_float ''x'' = Inl ValueError"
    by (simp add: string_defs float_defs)
  then have "parse_log ?B ''alice x'' = Inl ValueError"
    by (simp add: parse_log_def readlines_def parse_lines.simps string_defs)
  then have "\<not> list_all (parses ?B ?E) (listdir ?E)"
    by (simp add: listdir_def parses_def)
  with aggregate_order [where alive = ?B and d = ?E, THEN conjunct2, THEN conjunct1]
  have f: "aggregate_cpu_usage ?B ?E = Inl ValueError" by simp
  have "mset [''2024-03-02.log'', ''2024-03-01.log''] = mset [''2024-03-01.log'', ''2024-03-02.log'']"
    by (simp add: add_mset_commute)
  from aggregate_order [where alive = ?B and d = ?E, THEN conjunct2, THEN conjunct2,
      THEN conjunct1, THEN mp, OF this]
  have g: "mset (daily_records ?B ?E [''2024-03-02.log'', ''2024-03-01.log''])
           = mset (daily_records ?B ?E [''2024-03-01.log'', ''2024-03-02.log''])" .
  from w p a b c aggregate_three_days e f g show ?thesis by (intro conjI)
qed

section \<open>Formatting\<close>

lemma floor_mult_le: "0 < w \<Longrightarrow> w * real_of_int \<lfloor>x / w\<rfloor> \<le> x"
proof -
  assume w: "0 < w"
  have "real_of_int \<lfloor>x / w\<rfloor> \<le> x / w" by (rule of_int_floor_le)
  then have "w * real_of_int \<lfloor>x / w\<rfloor> \<le> w * (x / w)"
    using w by (intro mult_left_mono) simp_all
  also have "w * (x / w) = x" using w by simp
  finally show ?thesis .
qed

lemma fmod_nonneg:
  assumes "0 \<le> x" and "0 < w"
  shows "fmod x w = x - w * of_int \<lfloor>x / w\<rfloor>" and "0 \<le> fmod x w" and "fmod x w < w"
proof -
  from assms have q: "0 \<le> x / w" by simp
  then show eq: "fmod x w = x - w * of_int \<lfloor>x / w\<rfloor>" by (simp add: fmod_def)
  have "w * of_int \<lfloor>x / w\<rfloor> \<le> x" by (rule floor_mult_le [OF assms(2)])
  then show "0 \<le> fmod x w" by (simp add: eq)
  have "x / w < of_int \<lfloor>x / w\<rfloor> + 1" by linarith
  then have "w * (x / w) < w * (of_int \<lfloor>x / w\<rfloor> + 1)"
    using assms(2) by (intro mult_strict_left_mono)
  moreover have "w * (x / w) = x" using assms(2) by simp
  ultimately have "x < w * of_int \<lfloor>x / w\<rfloor> + w" by (simp add: algebra_simps)
  then show "fmod x w < w" unfolding eq by linarith
qed

lemma floor_div_bound:
  assumes "0 \<le> x" and "x < 2 ^ 53" and "1 \<le> w"
  shows "0 \<le> \<lfloor>x / w\<rfloor>" and "real_of_int \<lfloor>x / w\<rfloor> < 2 ^ 53"
    and "w * real_of_int \<lfloor>x / w\<rfloor> < 2 ^ 53" and "0 \<le> w * real_of_int \<lfloor>x / w\<rfloor>"
proof -
  from assms have w: "0 < w" by simp
  with assms(1) show k: "0 \<le> \<lfloor>x / w\<rfloor>" by simp
  have le: "w * of_int \<lfloor>x / w\<rfloor> \<le> x" by (rule floor_mult_le [OF w])
  with assms(2) show "w * real_of_int \<lfloor>x / w\<rfloor> < 2 ^ 53" by simp
  from k w show "0 \<le> w * real_of_int \<lfloor>x / w\<rfloor>" by simp
  have "real_of_int \<lfloor>x / w\<rfloor> \<le> w * real_of_int \<lfloor>x / w\<rfloor>"
    using k assms(3) by (simp add: mult_le_cancel_right1)
  with le assms(2) show "real_of_int \<lfloor>x / w\<rfloor> < 2 ^ 53" by linarith
qed

lemma float_floordiv_exact:
  assumes "0 \<le> x" and "x < 2 ^ 53" and "1 \<le> wi"
  shows "float_floordiv (Finite x) (of_int wi) = Finite (of_int \<lfloor>x / of_int wi\<rfloor>)"
proof -
  let ?w = "real_of_int wi"
  let ?k = "\<lfloor>x / ?w\<rfloor>"
  from assms(3) have w: "0 < ?w" "1 \<le> ?w" by simp_all
  note m = fmod_nonneg [OF assms(1) w(1)]
  note b = floor_div_bound [OF assms(1,2) w(2)]
  have xm: "x - fmod x ?w = of_int (wi * ?k)" by (simp add: m(1))
  have "\<bar>wi * ?k\<bar> < 2 ^ 53"
  proof -
    have "real_of_int \<bar>wi * ?k\<bar> < 2 ^ 53" using b(3,4) by simp
    then show ?thesis by (metis of_int_less_numeral_power_cancel_iff)
  qed
  then have a: "round_double (x - fmod x ?w) = Finite (of_int (wi * ?k))"
    unfolding xm by (rule round_double_of_int)
  have "real_of_int (wi * ?k) / ?w = of_int ?k" using w(1) by simp
  moreover have "\<bar>?k\<bar> < 2 ^ 53"
  proof -
    have "real_of_int \<bar>?k\<bar> < 2 ^ 53" using b(1,2) by simp
    then show ?thesis by (metis of_int_less_numeral_power_cancel_iff)
  qed
  ultimately have c: "round_double (real_of_int (wi * ?k) / ?w) = Finite (of_int ?k)"
    by (simp only: round_double_of_int)
  have nm: "\<not> fmod x ?w < 0" using m(2) by simp
  show ?thesis
    by (simp add: float_floordiv_def Let_def a c nm del: of_int_mult)
qed

lemma float_rem_exact:
  assumes "0 \<le> x" and "0 < w"
  shows "float_rem (Finite x) w = Finite (x - w * of_int \<lfloor>x / w\<rfloor>)"
  using fmod_nonneg [OF assms] by (simp add: float_rem_def Let_def)

lemma py_int_whole: "py_int (Finite (of_int k)) = Inr k"
  by (simp add: py_int_def)

text \<open>
  Claim C6, as the code has it. For a finite \<open>s\<close> with \<open>0 \<le> s < 2 ^ 53\<close> the formatter
  returns the whole hours \<open>\<lfloor>s / 3600\<rfloor>\<close> and the whole minutes of the rest
  \<open>\<lfloor>(s mod 3600) / 60\<rfloor>\<close>, nothing rounded up.
\<close>

theorem human_readable_time_floor:
  assumes "0 \<le> s" and "s < 2 ^ 53"
  shows "human_readable_time (Finite s)
         = Inr (str_int \<lfloor>s / 3600\<rfloor> @ '' hours ''
                @ str_int \<lfloor>(s - 3600 * of_int \<lfloor>s / 3600\<rfloor>) / 60\<rfloor> @ '' minutes'')"
proof -
  let ?r = "s - 3600 * of_int \<lfloor>s / 3600\<rfloor>"
  have h: "float_floordiv (Finite s) 3600 = Finite (of_int \<lfloor>s / 3600\<rfloor>)"
    using float_floordiv_exact [OF assms, of 3600] by simp
  have r: "float_rem (Finite s) 3600 = Finite ?r"
    using float_rem_exact [OF assms(1), of 3600] by simp
  have "0 \<le> ?r" and "?r < 3600"
    using fmod_nonneg [OF assms(1), of 3600] by simp_all
  then have "0 \<le> ?r" and "?r < 2 ^ 53" by simp_all
  from float_floordiv_exact [OF this, of 60]
  have m: "float_floordiv (Finite ?r) 60 = Finite (of_int \<lfloor>?r / 60\<rfloor>)" by simp
  show ?thesis
    by (simp only: human_readable_time_def h r m py_int_whole sum.case)
qed

theorem human_readable_time_floor_witness:
  "human_readable_time (Finite 5400) = Inr ''1 hours 30 minutes''
   \<and> human_readable_time (Finite 59) = Inr ''0 hours 0 minutes''
   \<and> human_readable_time (Finite (7199 + 99 / 100)) = Inr ''1 hours 59 minutes''"
proof -
  have d: "str_int 0 = ''0''" "str_int 1 = ''1''" "str_int 30 = ''30''" "str_int 59 = ''59''"
    by (simp_all add: str_int_def str_nat.simps digit_char_def)
  from human_readable_time_floor [of 5400] human_readable_time_floor [of 59]
    human_readable_time_floor [of "7199 + 99 / 100"]
  show ?thesis by (simp add: d)
qed

lemma exponent_of_big: "exponent_of 4722366482869645213200 = 19"
  by code_simp

lemma round_double_big: "round_double 4722366482869645213200 = Finite 4722366482869645213696"
  by (subst round_double_at [OF _ exponent_of_big]) (simp_all add: round_half_even_def)

lemma exponent_of_big_hours: "exponent_of (4722366482869645213696 / 3600) = 8"
  by code_simp

lemma round_double_big_hours:
  "round_double (4722366482869645213696 / 3600) = Finite 1311768467463790336"
  by (subst round_double_at [OF _ exponent_of_big_hours]) (simp_all add: round_half_even_def)

lemma round_double_big_hours_reduced:
  "round_double (295147905179352825856 / 225) = Finite 1311768467463790336"
  using round_double_big_hours by simp

lemma fmod_big: "fmod 4722366482869645213696 3600 = 496"
  by (simp add: fmod_def)

lemma float_floordiv_big:
  "float_floordiv (Finite 4722366482869645213696) 3600 = Finite 1311768467463790336"
  by (simp add: float_floordiv_def Let_def fmod_big round_double_big
      round_double_big_hours_reduced)

lemma str_int_big: "str_int 1311768467463790336 = ''1311768467463790336''"
  by (simp add: str_int_def str_nat.simps digit_char_def)

text \<open>
  The formatter on \<open>2 ^ 72\<close> seconds, which is a float, and on infinity, which \<open>parse_log\<close>
  returns for the line \<^verbatim>\<open>alice inf\<close>: one hour short of \<open>\<lfloor>2 ^ 72 / 3600\<rfloor>\<close>, and an exception.
\<close>

theorem human_readable_time_counterexample:
  "human_readable_time (Finite (2 ^ 72)) = Inr ''1311768467463790336 hours 8 minutes''
   \<and> \<lfloor>(2 ^ 72 :: real) / 3600\<rfloor> = 1311768467463790337
   \<and> parse_log [''alice''] ''alice inf'' = Inr [(''alice'', PosInf)]
   \<and> human_readable_time PosInf = Inl ValueError"
proof -
  have r: "float_rem (Finite 4722366482869645213696) 3600 = Finite 496"
    by (simp add: float_rem_def Let_def fmod_big)
  have m: "float_floordiv (Finite 496) 60 = Finite 8"
    using float_floordiv_exact [of 496 60] by simp
  have a: "human_readable_time (Finite (2 ^ 72)) = Inr ''1311768467463790336 hours 8 minutes''"
    by (simp add: human_readable_time_def float_floordiv_big r m py_int_def str_int_big)
      (simp add: str_int_def str_nat.simps digit_char_def)
  have b: "\<lfloor>(2 ^ 72 :: real) / 3600\<rfloor> = 1311768467463790337" by simp
  have c: "parse_log [''alice''] ''alice inf'' = Inr [(''alice'', PosInf)]"
    by (simp add: parse_log_def readlines_def parse_lines.simps string_defs get_def py_float_def
        lower_def)
  have d: "human_readable_time PosInf = Inl ValueError"
    by (simp add: human_readable_time_def float_floordiv_def py_int_def)
  from a b c d show ?thesis by (intro conjI)
qed

end
